theory Spec2Isabelle
  imports Main "HOL-Library.Word"
begin

unbundle bit_operations_syntax

section \<open>C characters, strings and memory\<close>

text \<open>
  A C \<open>char\<close> is an Isabelle \<open>char\<close> (8 bits). A \<open>const char *\<close> argument is a
  \<open>char list\<close> read from its first character up to the first NUL; the end of the
  list stands for the terminating NUL, so every list is a terminated C string and no read
  runs past the terminator. The line buffer that \<open>get_arg\<close> and
  \<open>process_command\<close> edit in place is the field \<open>mem\<close> of the state, and a pointer
  into it is an index: \<open>rd\<close> reads a character, NUL from the end of the list on, and
  \<open>wr\<close> stores one. C \<open>int\<close> is a 32-bit word whose arithmetic wraps around,
  \<open>long\<close> is 64 bits (LP64), and the "C" locale is in force.
\<close>

type_synonym c_int = "32 word"

definition NUL :: char where
  "NUL = CHR 0x00"

definition rd :: "char list \<Rightarrow> nat \<Rightarrow> char" where
  "rd m p = (if p < length m then m ! p else NUL)"

definition wr :: "char list \<Rightarrow> nat \<Rightarrow> char \<Rightarrow> char list" where
  "wr m p c = (if p < length m then m[p := c]
               else if c = NUL then m
               else m @ replicate (p - length m) NUL @ [c])"

definition cstr_at :: "char list \<Rightarrow> nat \<Rightarrow> string" where
  "cstr_at m p = takeWhile (\<lambda>c. c \<noteq> NUL) (drop p m)"

definition cstr :: "char list \<Rightarrow> string" where
  "cstr s = takeWhile (\<lambda>c. c \<noteq> NUL) s"

definition strlen :: "char list \<Rightarrow> nat \<Rightarrow> nat" where
  "strlen m p = length (cstr_at m p)"

subsection \<open>ctype.h in the "C" locale\<close>

definition isspace :: "char \<Rightarrow> bool" where
  "isspace c = (let n = (of_char c :: nat) in n = 32 \<or> (9 \<le> n \<and> n \<le> 13))"

definition isdigit :: "char \<Rightarrow> bool" where
  "isdigit c = (let n = (of_char c :: nat) in 48 \<le> n \<and> n \<le> 57)"

definition isupper :: "char \<Rightarrow> bool" where
  "isupper c = (let n = (of_char c :: nat) in 65 \<le> n \<and> n \<le> 90)"

definition islower :: "char \<Rightarrow> bool" where
  "islower c = (let n = (of_char c :: nat) in 97 \<le> n \<and> n \<le> 122)"

definition isalnum :: "char \<Rightarrow> bool" where
  "isalnum c = (isdigit c \<or> isupper c \<or> islower c)"

definition tolower :: "char \<Rightarrow> char" where
  "tolower c = (if isupper c then char_of ((of_char c :: nat) + 32) else c)"

subsection \<open>string.h and stdlib.h\<close>

text \<open>
  \<open>strcasecmp\<close> as the C library runs it: compare the lower-cased characters one by
  one, stop at the first difference or at the NUL of the first string, return the
  difference of the two characters read last.
\<close>

fun strcasecmp :: "char list \<Rightarrow> char list \<Rightarrow> int" where
  "strcasecmp [] s2 = 0 - int (of_char (tolower (rd s2 0)))"
| "strcasecmp (a # s1) s2 =
     (let c1 = tolower a; c2 = tolower (rd s2 0)
      in if c1 = NUL \<or> c1 \<noteq> c2 then int (of_char c1) - int (of_char c2)
         else strcasecmp s1 (tl s2))"

text \<open>
  \<open>strtol(s, NULL, base)\<close> for base 10 and 16: leading white space, an optional sign,
  for base 16 an optional \<open>0x\<close>, then the longest run of digits of the base. The value
  saturates at \<open>LONG_MAX\<close> and \<open>LONG_MIN\<close>. \<open>atoi\<close> is the C library's
  \<open>(int) strtol(s, NULL, 10)\<close>: the long cut to its low 32 bits.
\<close>

definition LONG_MAX :: int where
  "LONG_MAX = 2 ^ 63 - 1"

definition LONG_MIN :: int where
  "LONG_MIN = - (2 ^ 63)"

definition digit_val :: "char \<Rightarrow> nat" where
  "digit_val c = (let n = (of_char c :: nat) in
     if isdigit c then n - 48
     else if islower c then n - 87
     else if isupper c then n - 55
     else 99)"

definition strtol :: "char list \<Rightarrow> nat \<Rightarrow> int" where
  "strtol s base =
     (let s1 = dropWhile isspace s;
          neg = (rd s1 0 = CHR ''-'');
          s2 = (if rd s1 0 = CHR ''-'' \<or> rd s1 0 = CHR ''+'' then tl s1 else s1);
          s3 = (if base = 16 \<and> rd s2 0 = CHR ''0'' \<and> tolower (rd s2 1) = CHR ''x''
                then drop 2 s2 else s2);
          ds = takeWhile (\<lambda>c. digit_val c < base) s3;
          v = foldl (\<lambda>a c. a * int base + int (digit_val c)) 0 ds
      in if neg then max (- v) LONG_MIN else min v LONG_MAX)"

definition atoi :: "char list \<Rightarrow> c_int" where
  "atoi s = word_of_int (strtol s 10)"

section \<open>The data of parse.c\<close>

datatype option_type_t = OPTION_BOOLEAN | OPTION_NUMERIC | OPTION_TEXT

text \<open>
  \<open>struct option\<close>. The union \<open>data\<close> is kept as its two views, \<open>data.numeric\<close> and the
  character array \<open>data.text\<close>, whose length is \<open>sizeof(o->data.text)\<close>; an option uses
  the view its \<open>type\<close> selects. The \<open>next\<close> pointers are the order of
  \<open>option_list\<close>.
\<close>

record option_data =
  data_numeric :: c_int
  data_text :: "char list"

record struct_option =
  opt_name :: string
  opt_type :: option_type_t
  opt_help :: string
  opt_data :: option_data

text \<open>
  The file's static variables, the line buffer \<open>mem\<close> and what has been written to
  \<open>stderr\<close>. \<open>token_buf\<close> is the array of 64 characters, indexed from 0.
\<close>

record state =
  option_list :: "struct_option list"
  interactive_call :: c_int
  token_buf :: "nat \<Rightarrow> char"
  token_len :: nat
  token_mult :: c_int
  token_sum :: c_int
  mem :: "char list"
  stderr :: string

text \<open>
  \<open>struct command\<close> of parse.h: the handler \<open>func\<close> receives the cursor into the
  line buffer and may change any part of the state. \<open>all_commands\<close> is the list of the
  entries before the sentinel whose name is NULL.
\<close>

record command =
  cmd_name :: string
  cmd_func :: "nat \<Rightarrow> state \<Rightarrow> c_int \<times> state"
  cmd_help :: string

section \<open>The functions of parse.c\<close>

definition register_option :: "struct_option \<Rightarrow> state \<Rightarrow> state" where
  "register_option o1 st = st\<lparr>option_list := o1 # option_list st\<rparr>"

fun find_option_in :: "struct_option list \<Rightarrow> string \<Rightarrow> struct_option option" where
  "find_option_in [] nm = None"
| "find_option_in (o1 # os) nm =
     (if strcasecmp (opt_name o1) nm = 0 then Some o1 else find_option_in os nm)"

definition find_option :: "state \<Rightarrow> string \<Rightarrow> struct_option option" where
  "find_option st nm = find_option_in (option_list st) nm"

definition is_interactive :: "state \<Rightarrow> c_int" where
  "is_interactive st = interactive_call st"

subsection \<open>get_arg\<close>

function skip_space :: "char list \<Rightarrow> nat \<Rightarrow> nat" where
  "skip_space m p = (if rd m p \<noteq> NUL \<and> isspace (rd m p) then skip_space m (p + 1) else p)"
  by pat_completeness auto
termination
  by (relation "measure (\<lambda>(m, p). length m - p)") (auto simp: rd_def split: if_splits)

function skip_nonspace :: "char list \<Rightarrow> nat \<Rightarrow> nat" where
  "skip_nonspace m p =
     (if rd m p \<noteq> NUL \<and> \<not> isspace (rd m p) then skip_nonspace m (p + 1) else p)"
  by pat_completeness auto
termination
  by (relation "measure (\<lambda>(m, p). length m - p)") (auto simp: rd_def split: if_splits)

function zero_space :: "char list \<Rightarrow> nat \<Rightarrow> char list \<times> nat" where
  "zero_space m p =
     (if rd m p \<noteq> NUL \<and> isspace (rd m p) then zero_space (wr m p NUL) (p + 1) else (m, p))"
  by pat_completeness auto
termination
  by (relation "measure (\<lambda>(m, p). length m - p)") (auto simp: rd_def wr_def split: if_splits)

declare skip_space.simps [simp del] skip_nonspace.simps [simp del] zero_space.simps [simp del]

text \<open>
  \<open>char *get_arg(char **text)\<close>: \<open>text\<close> is \<open>None\<close> for the NULL pointer and
  \<open>Some p\<close> for a pointer to a cursor of value \<open>p\<close>. The result is the memory, the
  returned pointer (\<open>None\<close> for NULL) and the cursor afterwards.
\<close>

definition get_arg :: "char list \<Rightarrow> nat option \<Rightarrow> char list \<times> nat option \<times> nat option" where
  "get_arg m text =
     (case text of
        None \<Rightarrow> (m, None, None)
      | Some p \<Rightarrow>
          (let start = skip_space m p
           in if rd m start = NUL then (m, None, Some p)
              else (let end1 = skip_nonspace m start;
                        (m', end2) = (if rd m end1 \<noteq> NUL then zero_space m end1 else (m, end1))
                    in (m', Some start, Some end2))))"

subsection \<open>find_command and process_command\<close>

fun find_command :: "command list \<Rightarrow> string \<Rightarrow> command option" where
  "find_command [] nm = None"
| "find_command (c # cs) nm =
     (if strcasecmp nm (cmd_name c) = 0 then Some c else find_command cs nm)"

fun strip_len :: "char list \<Rightarrow> nat \<Rightarrow> nat \<Rightarrow> nat" where
  "strip_len m arg 0 = 0"
| "strip_len m arg (Suc n) = (if isspace (rd m (arg + n)) then strip_len m arg n else Suc n)"

definition process_command :: "command list \<Rightarrow> nat \<Rightarrow> c_int \<Rightarrow> state \<Rightarrow> c_int \<times> state" where
  "process_command all_commands arg interactive st =
     (let len = strip_len (mem st) arg (strlen (mem st) arg);
          m1 = wr (mem st) (arg + len) NUL
      in case get_arg m1 (Some arg) of
           (m2, Some cmd_text, Some arg') \<Rightarrow>
             (case find_command all_commands (cstr_at m2 cmd_text) of
                Some cmd \<Rightarrow>
                  (let old = interactive_call st;
                       (ret, st2) = cmd_func cmd arg' (st\<lparr>mem := m2, interactive_call := interactive\<rparr>)
                   in (0, st2\<lparr>interactive_call := old\<rparr>))
              | None \<Rightarrow>
                  (- 1, st\<lparr>mem := m2,
                           stderr := stderr st @ ''unknown command: '' @ cstr_at m2 cmd_text
                                       @ '' (try '' @ [CHR 0x22] @ ''help'' @ [CHR 0x22] @ '')''
                                       @ [CHR 0x0A]\<rparr>))
         | (m2, _, _) \<Rightarrow> (0, st\<lparr>mem := m2\<rparr>))"

subsection \<open>token_add and addr_exp\<close>

text \<open>
  \<open>stab_get\<close> of stab.h is a parameter: \<open>Some v\<close> when it returns 0 and stores
  \<open>v\<close>, \<open>None\<close> when it fails. In \<open>token_add\<close> the product with \<open>atoi\<close>
  is an \<open>int\<close>, the product with \<open>strtol\<close> is a \<open>long\<close> that the assignment to
  \<open>token_sum\<close> cuts to an \<open>int\<close>, and the 16-bit symbol value is promoted to
  \<open>int\<close>.
\<close>

type_synonym stab = "string \<Rightarrow> 16 word option"

definition buf_bytes :: "(nat \<Rightarrow> char) \<Rightarrow> char list" where
  "buf_bytes b = map b [0..<64]"

definition token_add :: "stab \<Rightarrow> state \<Rightarrow> c_int \<times> state" where
  "token_add stab_get st =
     (if token_len st = 0 then (0, st)
      else
        (let b = (token_buf st)(token_len st := NUL);
             st1 = st\<lparr>token_buf := b, token_len := 0\<rparr>;
             i = length (takeWhile isdigit (cstr (buf_bytes b)))
         in if b i = NUL
            then (0, st1\<lparr>token_sum := token_sum st1 + token_mult st1 * atoi (cstr (buf_bytes b))\<rparr>)
            else if b 0 = CHR ''0'' \<and> tolower (b 1) = CHR ''x''
            then (0, st1\<lparr>token_sum := token_sum st1
                     + word_of_int (sint (token_mult st1) * strtol (cstr_at (buf_bytes b) 2) 16)\<rparr>)
            else (case stab_get (cstr (buf_bytes b)) of
                    Some v \<Rightarrow> (0, st1\<lparr>token_sum := token_sum st1 + token_mult st1 * ucast v\<rparr>)
                  | None \<Rightarrow>
                      (- 1, st1\<lparr>stderr := stderr st1 @ ''unknown token: '' @ cstr (buf_bytes b)
                                             @ [CHR 0x0A]\<rparr>))))"

definition is_term_char :: "char \<Rightarrow> bool" where
  "is_term_char c = (isalnum c \<or> c = CHR ''_'' \<or> c = CHR ''$'' \<or> c = CHR ''.'' \<or> c = CHR '':'')"

text \<open>
  The body of the first branch of the loop of \<open>addr_exp\<close>:
  \<open>if (token_len + 1 < sizeof(token_buf)) token_buf[token_len++] = *text;\<close>
\<close>

definition token_put :: "char \<Rightarrow> state \<Rightarrow> state" where
  "token_put c st =
     (if token_len st + 1 < 64
      then st\<lparr>token_buf := (token_buf st)(token_len st := c), token_len := token_len st + 1\<rparr>
      else st)"

fun addr_exp_loop :: "stab \<Rightarrow> char list \<Rightarrow> state \<Rightarrow> c_int \<times> state" where
  "addr_exp_loop stab_get [] st = (0, st)"
| "addr_exp_loop stab_get (c # cs) st =
     (if c = NUL then (0, st)
      else if is_term_char c
      then addr_exp_loop stab_get cs (token_put c st)
      else (case token_add stab_get st of
              (r, st1) \<Rightarrow>
                if sint r < 0 then (- 1, st1)
                else addr_exp_loop stab_get cs
                       (let st2 = (if c = CHR ''+'' then st1\<lparr>token_mult := 1\<rparr> else st1)
                        in if c = CHR ''-'' then st2\<lparr>token_mult := - 1\<rparr> else st2)))"

text \<open>
  \<open>int addr_exp(const char *text, int *addr)\<close>: the third argument is the value of
  the cell \<open>*addr\<close> before the call; the result is the status, the cell afterwards and
  the state.
\<close>

definition addr_exp :: "stab \<Rightarrow> char list \<Rightarrow> c_int \<Rightarrow> state \<Rightarrow> c_int \<times> c_int \<times> state" where
  "addr_exp stab_get txt addr st =
     (case addr_exp_loop stab_get txt (st\<lparr>token_len := 0, token_mult := 1, token_sum := 0\<rparr>) of
        (r, st1) \<Rightarrow>
          if sint r < 0 then (- 1, addr, st1)
          else (case token_add stab_get st1 of
                  (r2, st2) \<Rightarrow>
                    if sint r2 < 0 then (- 1, addr, st2)
                    else (0, token_sum st2 AND 0xffff, st2)))"

subsection \<open>parse_option\<close>

text \<open>
  \<open>strncpy(dest, src, n)\<close> on an array \<open>dest\<close> of at least \<open>n\<close> bytes: the first
  \<open>n\<close> bytes become the string \<open>src\<close>, cut at \<open>n\<close> or padded with NUL.
\<close>

definition strncpy :: "char list \<Rightarrow> char list \<Rightarrow> nat \<Rightarrow> char list" where
  "strncpy dest src n = take n (cstr src @ replicate n NUL) @ drop n dest"

definition parse_option ::
  "stab \<Rightarrow> struct_option \<Rightarrow> char list \<Rightarrow> state \<Rightarrow> c_int \<times> struct_option \<times> state" where
  "parse_option stab_get o1 word st =
     (case opt_type o1 of
        OPTION_BOOLEAN \<Rightarrow>
          (0, o1\<lparr>opt_data := (opt_data o1)\<lparr>data_numeric :=
                 (if (isdigit (rd word 0) \<and> of_char (rd word 0) > (of_char CHR ''0'' :: nat))
                     \<or> rd word 0 = CHR ''t'' \<or> rd word 0 = CHR ''y''
                     \<or> (rd word 0 = CHR ''o'' \<and> rd word 1 = CHR ''n'')
                  then 1 else 0)\<rparr>\<rparr>, st)
      | OPTION_NUMERIC \<Rightarrow>
          (case addr_exp stab_get word (data_numeric (opt_data o1)) st of
             (r, a, st1) \<Rightarrow> (r, o1\<lparr>opt_data := (opt_data o1)\<lparr>data_numeric := a\<rparr>\<rparr>, st1))
      | OPTION_TEXT \<Rightarrow>
          (let n = length (data_text (opt_data o1));
               t1 = strncpy (data_text (opt_data o1)) word n;
               t2 = t1[n - 1 := NUL]
           in (0, o1\<lparr>opt_data := (opt_data o1)\<lparr>data_text := t2\<rparr>\<rparr>, st)))"

subsection \<open>parse_init\<close>

text \<open>
  The static \<open>option_color\<close>, zero-initialised apart from the fields named in its
  initialiser; \<open>n\<close> is the size of the text array, which parse.h fixes.
\<close>

definition option_color :: "nat \<Rightarrow> struct_option" where
  "option_color n =
     \<lparr>opt_name = ''color'', opt_type = OPTION_BOOLEAN,
      opt_help = ''Colorize disassembly output.'' @ [CHR 0x0A],
      opt_data = \<lparr>data_numeric = 0, data_text = replicate n NUL\<rparr>\<rparr>"

definition parse_init :: "nat \<Rightarrow> state \<Rightarrow> state" where
  "parse_init n st = register_option (option_color n) st"

text \<open>The state at program start: every static variable is zero.\<close>

definition state0 :: state where
  "state0 = \<lparr>option_list = [], interactive_call = 0, token_buf = (\<lambda>i. NUL), token_len = 0,
             token_mult = 0, token_sum = 0, mem = [], stderr = []\<rparr>"

section \<open>The specification's formulations\<close>

text \<open>
  The Boolean rule in the specification's words: the word is non-empty and its first
  character is a digit strictly greater than \<open>0\<close>, or is \<open>t\<close>, or is \<open>y\<close>, or
  the first two characters are \<open>on\<close>.
\<close>

definition spec_boolean :: "string \<Rightarrow> bool" where
  "spec_boolean w =
     (case w of
        [] \<Rightarrow> False
      | c # r \<Rightarrow> c \<in> set ''123456789'' \<or> c = CHR ''t'' \<or> c = CHR ''y'' \<or> take 2 w = ''on'')"

text \<open>
  Two names are case variants of each other when they have the same length and agree
  character by character up to letter case. Two names match when, read as C strings, they
  are equal after lower-casing: the whole name, not a prefix.
\<close>

definition case_variant :: "string \<Rightarrow> string \<Rightarrow> bool" where
  "case_variant a b = list_all2 (\<lambda>x y. tolower x = tolower y) a b"

definition same_name :: "string \<Rightarrow> string \<Rightarrow> bool" where
  "same_name a b = (map tolower (cstr a) = map tolower (cstr b))"

text \<open>
  Two handlers and a command table to run the lookup and the dispatcher on: one handler
  succeeds, the other reports a failure and returns -1.
\<close>

definition handler_ok :: "nat \<Rightarrow> state \<Rightarrow> c_int \<times> state" where
  "handler_ok arg st = (0, st)"

definition handler_fail :: "nat \<Rightarrow> state \<Rightarrow> c_int \<times> state" where
  "handler_fail arg st = (- 1, st\<lparr>stderr := stderr st @ ''failed'' @ [CHR 0x0A]\<rparr>)"

definition sample_commands :: "command list" where
  "sample_commands =
     [\<lparr>cmd_name = ''help'', cmd_func = handler_ok, cmd_help = ''help text''\<rparr>,
      \<lparr>cmd_name = ''Help'', cmd_func = handler_fail, cmd_help = ''shadowed''\<rparr>,
      \<lparr>cmd_name = ''erase'', cmd_func = handler_fail, cmd_help = ''erase text''\<rparr>]"

text \<open>A text option with an array of four characters, to run \<open>parse_option\<close> on.\<close>

definition sample_text_option :: struct_option where
  "sample_text_option =
     \<lparr>opt_name = ''chip'', opt_type = OPTION_TEXT, opt_help = ''chip name'',
      opt_data = \<lparr>data_numeric = 0, data_text = replicate 4 NUL\<rparr>\<rparr>"

subsection \<open>Address expressions as terms and separators\<close>

text \<open>
  An expression is cut into its terms, the maximal runs of term characters, and its
  separators, every other character.
\<close>

datatype item = Term string | Sep char

function items :: "string \<Rightarrow> item list" where
  "items [] = []"
| "items (c # cs) =
     (if is_term_char c
      then Term (c # takeWhile is_term_char cs) # items (dropWhile is_term_char cs)
      else Sep c # items cs)"
  by pat_completeness auto
termination
  by (relation "measure length") (auto simp: length_dropWhile_le less_Suc_eq_le)

text \<open>
  The value of a term, tried in the order of the specification: all characters decimal
  digits, then the first two characters \<open>0x\<close> or \<open>0X\<close>, then the symbol table.
  \<open>Inl t\<close> is the evaluation error "unknown token \<open>t\<close>".
\<close>

definition is_0x :: "string \<Rightarrow> bool" where
  "is_0x t = (case t of a # b # r \<Rightarrow> a = CHR ''0'' \<and> (b = CHR ''x'' \<or> b = CHR ''X'') | _ \<Rightarrow> False)"

text \<open>
  Reading a literal: the decimal value of a string of digits; the value of the leading
  hexadecimal digits of a string, after one more optional \<open>0x\<close>. Both stop growing at
  \<open>LONG_MAX\<close>.
\<close>

definition decimal_value :: "string \<Rightarrow> int" where
  "decimal_value t = foldl (\<lambda>a c. 10 * a + (int (of_char c) - int (of_char CHR ''0''))) 0 t"

definition isxdigit :: "char \<Rightarrow> bool" where
  "isxdigit c = (c \<in> set ''0123456789abcdefABCDEF'')"

definition hex_digit_value :: "char \<Rightarrow> int" where
  "hex_digit_value c =
     (if c \<in> set ''0123456789'' then int (of_char c) - int (of_char CHR ''0'')
      else if c \<in> set ''abcdef'' then int (of_char c) - int (of_char CHR ''a'') + 10
      else int (of_char c) - int (of_char CHR ''A'') + 10)"

definition hexadecimal_value :: "string \<Rightarrow> int" where
  "hexadecimal_value t = foldl (\<lambda>a c. 16 * a + hex_digit_value c) 0 t"

definition hex_digits :: "string \<Rightarrow> string" where
  "hex_digits r = takeWhile isxdigit (if is_0x r then drop 2 r else r)"

definition term_value :: "stab \<Rightarrow> string \<Rightarrow> string + int" where
  "term_value resolve t =
     (if list_all isdigit t then Inr (min (decimal_value t) LONG_MAX)
      else if is_0x t then Inr (min (hexadecimal_value (hex_digits (drop 2 t))) LONG_MAX)
      else (case resolve t of Some v \<Rightarrow> Inr (uint v) | None \<Rightarrow> Inl t))"

text \<open>
  The single pass from left to right over the items, with the sum and the sign carried
  along; \<open>keep\<close> is what the evaluator keeps of a term before resolving it.
\<close>

fun spec_pass :: "stab \<Rightarrow> (string \<Rightarrow> string) \<Rightarrow> item list \<Rightarrow> int \<Rightarrow> int \<Rightarrow> string + int" where
  "spec_pass resolve keep [] acc sign = Inr acc"
| "spec_pass resolve keep (Term t # r) acc sign =
     (case term_value resolve (keep t) of
        Inl e \<Rightarrow> Inl e
      | Inr v \<Rightarrow> spec_pass resolve keep r (acc + sign * v) sign)"
| "spec_pass resolve keep (Sep c # r) acc sign =
     spec_pass resolve keep r acc (if c = CHR ''+'' then 1 else if c = CHR ''-'' then - 1 else sign)"

text \<open>
  The evaluation as the claim words it, on whole terms, and as the evaluator buffers
  them, on the first 63 characters of each term. The result is the sum masked to 16 bits.
\<close>

definition claimed_addr_exp :: "stab \<Rightarrow> string \<Rightarrow> string + int" where
  "claimed_addr_exp resolve txt =
     map_sum id (\<lambda>s. s mod 65536) (spec_pass resolve id (items (cstr txt)) 0 1)"

definition spec_addr_exp :: "stab \<Rightarrow> string \<Rightarrow> string + int" where
  "spec_addr_exp resolve txt =
     map_sum id (\<lambda>s. s mod 65536) (spec_pass resolve (take 63) (items (cstr txt)) 0 1)"

text \<open>The characters held in \<open>token_buf\<close>, those below \<open>token_len\<close>.\<close>

definition buffered :: "state \<Rightarrow> string" where
  "buffered st = take (token_len st) (buf_bytes (token_buf st))"

text \<open>The symbol table of the specification's example: a is 5, b is 3, c is 2.\<close>

definition sample_stab :: stab where
  "sample_stab nm =
     (if nm = ''a'' then Some 5 else if nm = ''b'' then Some 3 else if nm = ''c'' then Some 2
      else None)"

text \<open>
  What \<open>addr_exp\<close> runs once its three variables are reset, the loop and the last
  \<open>token_add\<close>; the two assignments to \<open>token_mult\<close> after a separator; the line that
  \<open>token_add\<close> writes to \<open>stderr\<close>.
\<close>

definition addr_exp_tail :: "stab \<Rightarrow> char list \<Rightarrow> state \<Rightarrow> c_int \<times> state" where
  "addr_exp_tail stab_get txt st =
     (case addr_exp_loop stab_get txt st of
        (r, st1) \<Rightarrow>
          if sint r < 0 then (- 1, st1)
          else (case token_add stab_get st1 of
                  (r2, st2) \<Rightarrow> if sint r2 < 0 then (- 1, st2) else (0, st2)))"

definition set_sign :: "char \<Rightarrow> state \<Rightarrow> state" where
  "set_sign c st1 =
     (let st2 = (if c = CHR ''+'' then st1\<lparr>token_mult := 1\<rparr> else st1)
      in if c = CHR ''-'' then st2\<lparr>token_mult := - 1\<rparr> else st2)"

definition unknown_token :: "string \<Rightarrow> string" where
  "unknown_token e = ''unknown token: '' @ e @ [CHR 0x0A]"

text \<open>The status that \<open>addr_exp\<close> returns and the cell \<open>*addr\<close> after the call.\<close>

definition addr_status :: "stab \<Rightarrow> char list \<Rightarrow> c_int \<Rightarrow> state \<Rightarrow> c_int" where
  "addr_status stab_get txt addr st = fst (addr_exp stab_get txt addr st)"

definition addr_cell :: "stab \<Rightarrow> char list \<Rightarrow> c_int \<Rightarrow> state \<Rightarrow> c_int" where
  "addr_cell stab_get txt addr st = fst (snd (addr_exp stab_get txt addr st))"

definition addr_stderr :: "stab \<Rightarrow> char list \<Rightarrow> c_int \<Rightarrow> state \<Rightarrow> string" where
  "addr_stderr stab_get txt addr st = stderr (snd (snd (addr_exp stab_get txt addr st)))"

definition addr_sum :: "stab \<Rightarrow> char list \<Rightarrow> c_int \<Rightarrow> state \<Rightarrow> c_int" where
  "addr_sum stab_get txt addr st = token_sum (snd (snd (addr_exp stab_get txt addr st)))"

subsection \<open>Tokens of a command line\<close>

text \<open>
  What a caller of \<open>get_arg\<close> sees: the token at the returned pointer and the text at
  the cursor afterwards, both read from the memory that \<open>get_arg\<close> leaves.
\<close>

definition arg_token :: "char list \<Rightarrow> nat \<Rightarrow> string option" where
  "arg_token m p = (case get_arg m (Some p) of (m', r, c) \<Rightarrow> map_option (cstr_at m') r)"

definition arg_rest :: "char list \<Rightarrow> nat \<Rightarrow> string option" where
  "arg_rest m p = (case get_arg m (Some p) of (m', r, c) \<Rightarrow> map_option (cstr_at m') c)"

text \<open>
  \<open>extractToken\<close> in the specification's words, on the text at the cursor: skip the
  leading white space; if nothing is left there is no token and the cursor stays;
  otherwise the token is the run of characters up to the next white space, and the cursor
  moves past the white space that follows it.
\<close>

definition extractToken :: "string \<Rightarrow> string option \<times> string" where
  "extractToken s =
     (let s1 = dropWhile isspace s
      in if s1 = [] then (None, s)
         else (Some (takeWhile (\<lambda>c. \<not> isspace c) s1),
               dropWhile isspace (dropWhile (\<lambda>c. \<not> isspace c) s1)))"

subsection \<open>Dispatch of a command line\<close>

text \<open>
  The line at \<open>arg\<close> as the dispatcher's contract describes it: whether it holds no
  token, the name it starts with, and the diagnostic for a name that is no command.
\<close>

definition blank_line :: "state \<Rightarrow> nat \<Rightarrow> bool" where
  "blank_line st arg = list_all isspace (cstr_at (mem st) arg)"

definition command_name :: "state \<Rightarrow> nat \<Rightarrow> string" where
  "command_name st arg =
     takeWhile (\<lambda>c. \<not> isspace c) (dropWhile isspace (cstr_at (mem st) arg))"

definition unknown_command :: "string \<Rightarrow> string" where
  "unknown_command nm =
     ''unknown command: '' @ nm @ '' (try '' @ [CHR 0x22] @ ''help'' @ [CHR 0x22] @ '')''
       @ [CHR 0x0A]"

definition rstrip :: "string \<Rightarrow> string" where
  "rstrip s = rev (dropWhile isspace (rev s))"

text \<open>
  Handlers for a nested dispatch: \<open>handler_probe\<close> reports what \<open>is_interactive\<close>
  answers, \<open>handler_batch\<close> dispatches the rest of its line through the table
  \<open>inner_commands\<close> with the interactive flag 0 and then reports again.
\<close>

definition handler_probe :: "nat \<Rightarrow> state \<Rightarrow> c_int \<times> state" where
  "handler_probe arg st =
     (0, st\<lparr>stderr := stderr st @ (if is_interactive st = 0 then ''batch'' else ''interactive'')
                           @ [CHR 0x0A]\<rparr>)"

definition inner_commands :: "command list" where
  "inner_commands = [\<lparr>cmd_name = ''probe'', cmd_func = handler_probe, cmd_help = ''probe''\<rparr>]"

definition handler_batch :: "nat \<Rightarrow> state \<Rightarrow> c_int \<times> state" where
  "handler_batch arg st =
     (case process_command inner_commands arg 0 st of (r, st1) \<Rightarrow> handler_probe arg st1)"

definition outer_commands :: "command list" where
  "outer_commands =
     [\<lparr>cmd_name = ''probe'', cmd_func = handler_probe, cmd_help = ''probe''\<rparr>,
      \<lparr>cmd_name = ''batch'', cmd_func = handler_batch, cmd_help = ''batch''\<rparr>]"

section \<open>Character classes\<close>

lemma isdigit_iff: "isdigit c \<longleftrightarrow> c \<in> set ''0123456789''"
proof
  assume "isdigit c"
  then have "(of_char c :: nat) \<in> {48, 49, 50, 51, 52, 53, 54, 55, 56, 57}"
    unfolding isdigit_def Let_def by (simp; arith)
  then have "(of_char c :: nat) \<in> of_char ` set ''0123456789''"
    by simp
  then show "c \<in> set ''0123456789''"
    by (auto simp only: of_char_eq_iff)
next
  assume "c \<in> set ''0123456789''"
  then show "isdigit c" by (auto simp: isdigit_def)
qed

section \<open>Boolean options\<close>

lemma bool_cond_iff:
  "((isdigit (rd w 0) \<and> of_char (rd w 0) > (of_char CHR ''0'' :: nat))
      \<or> rd w 0 = CHR ''t'' \<or> rd w 0 = CHR ''y''
      \<or> (rd w 0 = CHR ''o'' \<and> rd w 1 = CHR ''n'')) = spec_boolean (cstr w)"
proof (cases w)
  case Nil
  then show ?thesis by (simp add: rd_def cstr_def spec_boolean_def NUL_def isdigit_def)
next
  case (Cons c r)
  show ?thesis
  proof (cases "c = NUL")
    case True
    with Cons show ?thesis by (simp add: rd_def cstr_def spec_boolean_def NUL_def isdigit_def)
  next
    case False
    have d: "(isdigit c \<and> of_char c > (48 :: nat)) \<longleftrightarrow> c \<in> set ''123456789''"
      by (auto simp: isdigit_iff)
    have two: "(rd w 1 = CHR ''n'') \<longleftrightarrow> (take 1 (cstr r) = ''n'')"
      using Cons by (cases r) (auto simp: rd_def cstr_def NUL_def)
    from Cons False d two show ?thesis
      by (auto simp: rd_def cstr_def spec_boolean_def)
  qed
qed

text \<open>
  C5. Parsing a word into a Boolean option always returns 0 and stores 1 exactly when the
  word, read as a C string, satisfies the specification's rule (first character a digit
  above \<open>0\<close>, or \<open>t\<close>, or \<open>y\<close>, or the first two characters \<open>on\<close>), and stores 0
  otherwise; nothing else of the option or of the state changes. The words 1, true, yes,
  on and truish store 1; the words 0, false, no, off, the empty word and 0foo store 0.
\<close>

theorem parse_option_boolean:
  assumes "opt_type o1 = OPTION_BOOLEAN"
  shows "parse_option stab_get o1 w st =
           (0, o1\<lparr>opt_data := (opt_data o1)\<lparr>data_numeric :=
                   (if spec_boolean (cstr w) then 1 else 0)\<rparr>\<rparr>, st)
         \<and> (\<forall>t \<in> {''1'', ''true'', ''yes'', ''on'', ''truish''}.
               data_numeric (opt_data (fst (snd (parse_option stab_get o1 t st)))) = 1)
         \<and> (\<forall>f \<in> {''0'', ''false'', ''no'', ''off'', '''', ''0foo''}.
               data_numeric (opt_data (fst (snd (parse_option stab_get o1 f st)))) = 0)"
proof -
  have eq: "\<And>w. parse_option stab_get o1 w st =
           (0, o1\<lparr>opt_data := (opt_data o1)\<lparr>data_numeric :=
                   (if spec_boolean (cstr w) then 1 else 0)\<rparr>\<rparr>, st)"
    using assms unfolding parse_option_def bool_cond_iff by simp
  show ?thesis
    unfolding eq by (simp add: spec_boolean_def cstr_def NUL_def)
qed

theorem parse_option_boolean_witness:
  "opt_type (option_color 8) = OPTION_BOOLEAN
   \<and> parse_option (\<lambda>n. None) (option_color 8) ''yes'' state0
       = (0, (option_color 8)\<lparr>opt_data := \<lparr>data_numeric = 1, data_text = replicate 8 NUL\<rparr>\<rparr>, state0)
   \<and> data_numeric (opt_data (fst (snd (parse_option (\<lambda>n. None) (option_color 8) ''off'' state0)))) = 0"
proof -
  have h: "opt_type (option_color 8) = OPTION_BOOLEAN"
    by (simp add: option_color_def)
  show ?thesis
    using h parse_option_boolean [OF h, of "\<lambda>n. None" "''yes''" state0]
    by (simp add: option_color_def spec_boolean_def cstr_def NUL_def)
qed

lemma of_char_NUL_iff: "(of_char c = (0::nat)) \<longleftrightarrow> c = NUL"
proof -
  have "(of_char c = (of_char NUL :: nat)) \<longleftrightarrow> c = NUL"
    by (simp only: of_char_eq_iff)
  then show ?thesis by (simp add: NUL_def)
qed

lemma tolower_NUL_iff: "tolower c = NUL \<longleftrightarrow> c = NUL"
proof
  assume a: "tolower c = NUL"
  show "c = NUL"
  proof (cases "isupper c")
    case True
    then have "(of_char (tolower c) :: nat) = of_char c + 32"
      by (simp add: tolower_def isupper_def Let_def)
    with a show ?thesis by (simp add: NUL_def)
  next
    case False
    with a show ?thesis by (simp add: tolower_def)
  qed
next
  assume "c = NUL" then show "tolower c = NUL" by (simp add: tolower_def isupper_def NUL_def)
qed

lemma tolower_NUL [simp]: "tolower NUL = NUL"
  by (simp add: tolower_NUL_iff)

lemma of_char_diff_0: "int (of_char c1) - int (of_char c2) = 0 \<longleftrightarrow> c1 = c2"
  by (simp add: of_char_eq_iff)

lemma cstr_Nil [simp]: "cstr [] = []"
  by (simp add: cstr_def)

lemma cstr_Cons: "cstr (c # s) = (if c = NUL then [] else c # cstr s)"
  by (simp add: cstr_def)

lemma rd_0_Cons [simp]: "rd (c # s) 0 = c"
  by (simp add: rd_def)

lemma rd_Nil [simp]: "rd [] p = NUL"
  by (simp add: rd_def)

section \<open>Name lookup\<close>

lemma strcasecmp_zero_iff: "strcasecmp a b = 0 \<longleftrightarrow> same_name a b"
proof (induction a arbitrary: b)
  case Nil
  show ?case
    by (cases b) (auto simp: same_name_def cstr_Cons tolower_NUL_iff of_char_NUL_iff)
next
  case (Cons x xs)
  show ?case
  proof (cases b)
    case Nil
    then show ?thesis
      using tolower_NUL_iff [of x] by (auto simp: same_name_def cstr_Cons of_char_NUL_iff Let_def)
  next
    case (Cons y ys)
    have ih: "strcasecmp xs ys = 0 \<longleftrightarrow> map tolower (cstr xs) = map tolower (cstr ys)"
      using Cons.IH [of ys] by (simp add: same_name_def)
    show ?thesis
      using tolower_NUL_iff [of x] tolower_NUL_iff [of y] ih
      by (auto simp: Cons same_name_def cstr_Cons Let_def of_char_diff_0 of_char_NUL_iff)
  qed
qed

lemma same_name_sym: "same_name a b = same_name b a"
  by (auto simp: same_name_def)

lemma case_variant_same_name:
  "case_variant a b \<Longrightarrow> map tolower (cstr a) = map tolower (cstr b)"
  unfolding case_variant_def
proof (induction a b rule: list_all2_induct)
  case Nil
  then show ?case by simp
next
  case (Cons x xs y ys)
  then show ?case
    using tolower_NUL_iff [of x] tolower_NUL_iff [of y] by (auto simp: cstr_Cons)
qed

lemma find_command_find:
  "find_command cmds nm = List.find (\<lambda>c. same_name nm (cmd_name c)) cmds"
  by (induction cmds) (simp_all add: strcasecmp_zero_iff)

lemma find_option_in_find:
  "find_option_in os nm = List.find (\<lambda>o1. same_name (opt_name o1) nm) os"
  by (induction os) (simp_all add: strcasecmp_zero_iff)

text \<open>
  C9. Lookup ignores letter case: for a name and any case variant of it,
  \<open>find_command\<close> returns the same entry of the command table and \<open>find_option\<close>
  the same entry of the option registry. In both, the entry returned is the first one in
  scan order whose whole name equals the queried name after lower-casing (an exact match,
  not a prefix match), and there is none when no entry matches.
\<close>

theorem lookup_case_insensitive:
  "(case_variant nm nm' \<longrightarrow>
      find_command cmds nm = find_command cmds nm' \<and> find_option st nm = find_option st nm')
   \<and> find_command cmds nm = List.find (\<lambda>c. same_name (cmd_name c) nm) cmds
   \<and> find_option st nm = List.find (\<lambda>o1. same_name (opt_name o1) nm) (option_list st)"
proof -
  have v: "same_name x nm = same_name x nm'" if "case_variant nm nm'" for x
    using case_variant_same_name [OF that] by (simp add: same_name_def)
  show ?thesis
    by (auto simp: find_command_find find_option_def find_option_in_find v
          same_name_sym [of nm] same_name_sym [of nm'])
qed

theorem lookup_case_insensitive_witness:
  "case_variant ''HELP'' ''help''
   \<and> find_command sample_commands ''HELP'' = find_command sample_commands ''help''
   \<and> find_command sample_commands ''help'' = Some (sample_commands ! 0)
   \<and> find_command sample_commands ''hel'' = None
   \<and> find_command sample_commands ''helper'' = None
   \<and> find_option (parse_init 8 state0) ''COLOR'' = find_option (parse_init 8 state0) ''color''
   \<and> find_option (parse_init 8 state0) ''Color'' = Some (option_color 8)
   \<and> find_option (parse_init 8 state0) ''col'' = None"
proof -
  have h: "case_variant ''HELP'' ''help''"
    by (simp add: case_variant_def tolower_def isupper_def char_of_def bit_Suc_0_iff)
  show ?thesis
    using h lookup_case_insensitive [of "''HELP''" "''help''" sample_commands "parse_init 8 state0"]
      lookup_case_insensitive [of "''COLOR''" "''color''" sample_commands "parse_init 8 state0"]
    by (simp add: sample_commands_def parse_init_def register_option_def option_color_def
          state0_def find_option_def same_name_def cstr_def NUL_def tolower_def isupper_def
          rd_def case_variant_def char_of_def bit_Suc_0_iff)
qed

section \<open>Text options\<close>

lemma cstr_no_NUL: "NUL \<notin> set (cstr s)"
  unfolding cstr_def by (induction s) auto

lemma cstr_append_NUL: "NUL \<notin> set a \<Longrightarrow> cstr (a @ NUL # b) = a"
  unfolding cstr_def by (induction a) auto

lemma cstr_prefix_take: "\<exists>k. cstr s = take k s"
  unfolding cstr_def by (metis takeWhile_eq_take)

lemma text_store_shape:
  assumes "0 < n" "NUL \<notin> set w"
  shows "(take n (w @ replicate n NUL))[n - 1 := NUL]
           = take (n - 1) w @ replicate (n - length (take (n - 1) w)) NUL"
proof (rule nth_equalityI)
  show "length ((take n (w @ replicate n NUL))[n - 1 := NUL])
          = length (take (n - 1) w @ replicate (n - length (take (n - 1) w)) NUL)"
    using assms by auto
next
  fix i
  assume "i < length ((take n (w @ replicate n NUL))[n - 1 := NUL])"
  then have i: "i < n" by simp
  show "(take n (w @ replicate n NUL))[n - 1 := NUL] ! i
          = (take (n - 1) w @ replicate (n - length (take (n - 1) w)) NUL) ! i"
    using i assms by (cases "i = n - 1") (auto simp: nth_append nth_list_update)
qed

text \<open>
  C8. Parsing a word into a Text option always returns 0 and leaves the state (so also
  \<open>stderr\<close>) as it was. The array keeps its size; the string stored in it is the word
  cut to one character less than the size of the array, a prefix of the word and the
  whole word when it fits; a NUL follows the stored string inside the array, and the last
  element of the array is NUL. A word that exceeds the capacity is cut without any error.
\<close>

theorem parse_option_text:
  assumes "opt_type o1 = OPTION_TEXT" and "data_text (opt_data o1) \<noteq> []"
  shows "\<exists>t. parse_option stab_get o1 w st = (0, o1\<lparr>opt_data := (opt_data o1)\<lparr>data_text := t\<rparr>\<rparr>, st)
           \<and> length t = length (data_text (opt_data o1))
           \<and> cstr t = take (length t - 1) (cstr w)
           \<and> length (cstr t) < length t
           \<and> rd t (length (cstr t)) = NUL
           \<and> rd t (length t - 1) = NUL"
proof -
  define n where "n = length (data_text (opt_data o1))"
  define t where "t = (strncpy (data_text (opt_data o1)) w n)[n - 1 := NUL]"
  have n: "0 < n" using assms(2) by (simp add: n_def)
  have shape: "t = take (n - 1) (cstr w) @ replicate (n - length (take (n - 1) (cstr w))) NUL"
    unfolding t_def strncpy_def using text_store_shape [OF n cstr_no_NUL, of w]
    by (simp add: n_def)
  have len: "length t = n" using n by (simp add: shape)
  have pos: "0 < n - length (take (n - 1) (cstr w))" using n by simp
  then obtain k where k: "n - length (take (n - 1) (cstr w)) = Suc k"
    by (cases "n - length (take (n - 1) (cstr w))") auto
  have nn: "NUL \<notin> set (take (n - 1) (cstr w))"
    using cstr_no_NUL [of w] by (meson in_set_takeD)
  have c: "cstr t = take (n - 1) (cstr w)"
    unfolding shape k using cstr_append_NUL [OF nn] by simp
  have p: "parse_option stab_get o1 w st = (0, o1\<lparr>opt_data := (opt_data o1)\<lparr>data_text := t\<rparr>\<rparr>, st)"
    using assms(1) by (simp add: parse_option_def t_def n_def Let_def)
  have l: "length (cstr t) < length t" using n by (simp add: c len)
  have "(take (n - 1) (cstr w) @ NUL # replicate k NUL) ! length (take (n - 1) (cstr w)) = NUL"
    by (rule nth_append_length)
  then have "t ! length (cstr t) = NUL"
    unfolding c by (subst shape) (simp only: k replicate_Suc)
  then have r1: "rd t (length (cstr t)) = NUL"
    using l by (simp add: rd_def)
  have "length (strncpy (data_text (opt_data o1)) w n) = n"
    using len by (simp add: t_def)
  then have "t ! (n - 1) = NUL"
    unfolding t_def using n by (intro nth_list_update_eq) simp
  then have r2: "rd t (length t - 1) = NUL"
    using n by (simp add: rd_def len)
  from len have len': "length t = length (data_text (opt_data o1))"
    by (simp add: n_def)
  from c have c': "cstr t = take (length t - 1) (cstr w)"
    by (simp add: len)
  show ?thesis
    using p len' c' l r1 r2 by (intro exI [of _ t] conjI)
qed

theorem parse_option_text_witness:
  "opt_type sample_text_option = OPTION_TEXT
   \<and> data_text (opt_data sample_text_option) \<noteq> []
   \<and> parse_option (\<lambda>n. None) sample_text_option ''abcdef'' state0
       = (0, sample_text_option\<lparr>opt_data := \<lparr>data_numeric = 0, data_text = ''abc'' @ [NUL]\<rparr>\<rparr>,
          state0)
   \<and> cstr (''abc'' @ [NUL]) = take 3 ''abcdef''"
proof -
  have h1: "opt_type sample_text_option = OPTION_TEXT"
    by (simp add: sample_text_option_def)
  have h2: "data_text (opt_data sample_text_option) \<noteq> []"
    by (simp add: sample_text_option_def)
  show ?thesis
    using h1 h2 parse_option_text [OF h1 h2, of "\<lambda>n. None" "''abcdef''" state0]
    by (simp add: sample_text_option_def parse_option_def strncpy_def cstr_def NUL_def)
qed

section \<open>The token buffer\<close>

lemma not_term_NUL [simp]: "\<not> is_term_char NUL"
  by (simp add: is_term_char_def isalnum_def isdigit_def isupper_def islower_def NUL_def)

lemma not_digit_NUL [simp]: "\<not> isdigit NUL"
  by (simp add: isdigit_def NUL_def)

lemma length_buf_bytes [simp]: "length (buf_bytes b) = 64"
  by (simp add: buf_bytes_def)

lemma nth_buf_bytes: "i < 64 \<Longrightarrow> buf_bytes b ! i = b i"
  by (simp add: buf_bytes_def del: upt_Suc)

lemma length_buffered: "token_len st \<le> 63 \<Longrightarrow> length (buffered st) = token_len st"
  by (simp add: buffered_def)

lemma nth_buffered: "i < token_len st \<Longrightarrow> token_len st \<le> 63 \<Longrightarrow> buffered st ! i = token_buf st i"
  by (simp add: buffered_def nth_buf_bytes)

lemma buffered_token_put:
  assumes "token_len st \<le> 63"
  shows "buffered (token_put c st) = take 63 (buffered st @ [c])"
proof (cases "token_len st + 1 < 64")
  case True
  show ?thesis
  proof (rule nth_equalityI)
    show "length (buffered (token_put c st)) = length (take 63 (buffered st @ [c]))"
      using True assms by (simp add: token_put_def buffered_def)
  next
    fix i assume "i < length (buffered (token_put c st))"
    then have i: "i < token_len st + 1" using True by (simp add: token_put_def buffered_def)
    show "buffered (token_put c st) ! i = take 63 (buffered st @ [c]) ! i"
      using True i assms
      by (auto simp: token_put_def buffered_def nth_buf_bytes nth_append)
  qed
next
  case False
  with assms have "token_len st = 63" by simp
  then show ?thesis
    using False by (simp add: token_put_def buffered_def)
qed

lemma token_put_fields [simp]:
  "token_sum (token_put c st) = token_sum st"
  "token_mult (token_put c st) = token_mult st"
  "stderr (token_put c st) = stderr st"
  by (simp_all add: token_put_def)

lemma token_len_token_put: "token_len st \<le> 63 \<Longrightarrow> token_len (token_put c st) \<le> 63"
  by (simp add: token_put_def)

lemma token_len_token_put_pos: "0 < token_len (token_put c st)"
  by (simp add: token_put_def)

lemma fold_put_fields [simp]:
  "token_sum (fold token_put t st) = token_sum st"
  "token_mult (fold token_put t st) = token_mult st"
  "stderr (fold token_put t st) = stderr st"
  by (induction t arbitrary: st; simp)+

lemma token_len_fold_put: "token_len st \<le> 63 \<Longrightarrow> token_len (fold token_put t st) \<le> 63"
  by (induction t arbitrary: st) (simp_all add: token_len_token_put)

lemma take_take_append: "take n (take n xs @ ys) = take n (xs @ ys)"
  by (induction xs arbitrary: n) (auto simp: take_Cons split: nat.splits)

lemma buffered_fold_put:
  "token_len st \<le> 63 \<Longrightarrow> buffered (fold token_put t st) = take 63 (buffered st @ t)"
proof (induction t arbitrary: st)
  case Nil
  then show ?case by (simp add: length_buffered)
next
  case (Cons c t)
  have "buffered (fold token_put t (token_put c st)) = take 63 (buffered (token_put c st) @ t)"
    using Cons.IH [of "token_put c st"] Cons.prems by (simp add: token_len_token_put)
  also have "\<dots> = take 63 (take 63 (buffered st @ [c]) @ t)"
    using Cons.prems by (simp add: buffered_token_put)
  also have "\<dots> = take 63 (buffered st @ c # t)"
    by (simp only: take_take_append append_assoc append_Cons append_Nil)
  finally show ?case by simp
qed

lemma loop_term_run:
  "\<forall>c \<in> set t. is_term_char c \<Longrightarrow>
     addr_exp_loop g (t @ rest) st = addr_exp_loop g rest (fold token_put t st)"
proof (induction t arbitrary: st)
  case Nil
  then show ?case by simp
next
  case (Cons c t)
  then have "c \<noteq> NUL" by auto
  with Cons show ?case by simp
qed

section \<open>What token_add does with the buffered characters\<close>

lemma cstr_at_0 [simp]: "cstr_at s 0 = cstr s"
  by (simp add: cstr_at_def cstr_def)

lemma cstr_at_append_NUL:
  "NUL \<notin> set a \<Longrightarrow> k \<le> length a \<Longrightarrow> cstr_at (a @ NUL # b) k = drop k a"
  using cstr_append_NUL [of "drop k a" b]
  by (simp add: cstr_at_def cstr_def) (meson in_set_dropD)

lemma buf_bytes_split:
  assumes "n \<le> 63"
  shows "buf_bytes (b(n := NUL)) = take n (buf_bytes b) @ NUL # drop (Suc n) (buf_bytes b)"
proof (rule nth_equalityI)
  show "length (buf_bytes (b(n := NUL))) = length (take n (buf_bytes b) @ NUL # drop (Suc n) (buf_bytes b))"
    using assms by simp
next
  fix i assume "i < length (buf_bytes (b(n := NUL)))"
  then have i: "i < 64" by simp
  consider "i < n" | "i = n" | "n < i" by arith
  then show "buf_bytes (b(n := NUL)) ! i = (take n (buf_bytes b) @ NUL # drop (Suc n) (buf_bytes b)) ! i"
  proof cases
    case 1
    then show ?thesis using i assms by (simp add: nth_buf_bytes nth_append)
  next
    case 2
    then show ?thesis using i assms by (simp add: nth_buf_bytes nth_append)
  next
    case 3
    then obtain k where k: "i = Suc (n + k)" using less_iff_Suc_add by auto
    show ?thesis using i assms unfolding k by (simp add: nth_buf_bytes nth_append)
  qed
qed

lemma tolower_x_iff: "tolower c = CHR ''x'' \<longleftrightarrow> c = CHR ''x'' \<or> c = CHR ''X''"
proof (cases "isupper c")
  case True
  then have lt: "(of_char c :: nat) + 32 < 256" by (simp add: isupper_def Let_def)
  have "tolower c = CHR ''x'' \<longleftrightarrow> (of_char c :: nat) + 32 = 120"
    using True lt by (simp add: tolower_def char_of_eq_iff take_bit_nat_eq_self)
  also have "\<dots> \<longleftrightarrow> (of_char c :: nat) = of_char CHR ''X''" by auto
  also have "\<dots> \<longleftrightarrow> c = CHR ''X''" by (simp only: of_char_eq_iff)
  finally show ?thesis using True by (auto simp: isupper_def)
next
  case False
  then show ?thesis by (auto simp: tolower_def isupper_def)
qed

lemma is_0x_rd: "NUL \<notin> set t \<Longrightarrow> is_0x t \<longleftrightarrow> rd t 0 = CHR ''0'' \<and> tolower (rd t 1) = CHR ''x''"
  by (cases t; cases "tl t") (auto simp: is_0x_def rd_def tolower_x_iff NUL_def)

lemma digits_scan:
  "NUL \<notin> set t \<Longrightarrow> rd t (length (takeWhile isdigit t)) = NUL \<longleftrightarrow> list_all isdigit t"
proof (induction t)
  case Nil
  then show ?case by simp
next
  case (Cons c t)
  then show ?case by (auto simp: rd_def)
qed

lemma islower_af_iff: "islower c \<and> (of_char c :: nat) \<le> 102 \<longleftrightarrow> c \<in> set ''abcdef''"
proof
  assume "islower c \<and> (of_char c :: nat) \<le> 102"
  then have "(of_char c :: nat) \<in> {97, 98, 99, 100, 101, 102}"
    unfolding islower_def Let_def by (simp; arith)
  then have "(of_char c :: nat) \<in> of_char ` set ''abcdef''"
    by simp
  then show "c \<in> set ''abcdef''"
    by (auto simp only: of_char_eq_iff)
next
  assume "c \<in> set ''abcdef''"
  then show "islower c \<and> (of_char c :: nat) \<le> 102" by (auto simp: islower_def)
qed

lemma isupper_AF_iff: "isupper c \<and> (of_char c :: nat) \<le> 70 \<longleftrightarrow> c \<in> set ''ABCDEF''"
proof
  assume "isupper c \<and> (of_char c :: nat) \<le> 70"
  then have "(of_char c :: nat) \<in> {65, 66, 67, 68, 69, 70}"
    unfolding isupper_def Let_def by (simp; arith)
  then have "(of_char c :: nat) \<in> of_char ` set ''ABCDEF''"
    by simp
  then show "c \<in> set ''ABCDEF''"
    by (auto simp only: of_char_eq_iff)
next
  assume "c \<in> set ''ABCDEF''"
  then show "isupper c \<and> (of_char c :: nat) \<le> 70" by (auto simp: isupper_def)
qed

lemma ctype_disjoint:
  "isdigit c \<Longrightarrow> \<not> islower c \<and> \<not> isupper c"
  "islower c \<Longrightarrow> \<not> isdigit c \<and> \<not> isupper c"
  "isupper c \<Longrightarrow> \<not> isdigit c \<and> \<not> islower c"
  by (auto simp: isdigit_def islower_def isupper_def Let_def)

lemma digit_val_16_iff: "digit_val c < 16 \<longleftrightarrow> isxdigit c"
proof -
  have "digit_val c < 16 \<longleftrightarrow>
          isdigit c \<or> (islower c \<and> (of_char c :: nat) \<le> 102) \<or> (isupper c \<and> (of_char c :: nat) \<le> 70)"
    by (auto simp: digit_val_def isdigit_def islower_def isupper_def Let_def)
  also have "\<dots> \<longleftrightarrow> isxdigit c"
    unfolding isdigit_iff islower_af_iff isupper_AF_iff by (auto simp: isxdigit_def)
  finally show ?thesis .
qed

lemma digit_val_hex:
  assumes "isxdigit c"
  shows "int (digit_val c) = hex_digit_value c"
proof -
  have x: "isdigit c \<or> (islower c \<and> (of_char c :: nat) \<le> 102) \<or> (isupper c \<and> (of_char c :: nat) \<le> 70)"
    unfolding isdigit_iff islower_af_iff isupper_AF_iff using assms by (auto simp: isxdigit_def)
  have h: "hex_digit_value c =
     (if isdigit c then int (of_char c) - 48
      else if islower c \<and> (of_char c :: nat) \<le> 102 then int (of_char c) - 97 + 10
      else int (of_char c) - 65 + 10)"
    unfolding isdigit_iff islower_af_iff hex_digit_value_def by simp
  show ?thesis
    unfolding h using x
    by (auto simp: digit_val_def isdigit_def islower_def isupper_def Let_def)
qed

lemma digit_val_10: "isdigit c \<Longrightarrow> digit_val c < 10 \<and> int (digit_val c) = int (of_char c) - 48"
  by (auto simp: digit_val_def isdigit_def Let_def)

lemma term_char_plain:
  "is_term_char c \<Longrightarrow> \<not> isspace c \<and> c \<noteq> CHR ''-'' \<and> c \<noteq> CHR ''+'' \<and> c \<noteq> NUL"
proof -
  assume a: "is_term_char c"
  have s: "isspace c \<Longrightarrow> \<not> is_term_char c"
    unfolding isspace_def Let_def
    by (elim disjE conjE)
       (auto simp: is_term_char_def isalnum_def isdigit_def isupper_def islower_def Let_def)
  have "\<not> is_term_char CHR ''-''" "\<not> is_term_char CHR ''+''" "\<not> is_term_char NUL"
    by (simp_all add: is_term_char_def isalnum_def isdigit_def isupper_def islower_def NUL_def)
  with a s show ?thesis by auto
qed

lemma foldl_digits_cong:
  "(\<And>c. c \<in> set t \<Longrightarrow> f c = h c) \<Longrightarrow>
     foldl (\<lambda>a c. a * b + f c) (z::int) t = foldl (\<lambda>a c. b * a + h c) z t"
  by (induction t arbitrary: z) (simp_all add: mult.commute)

lemma strtol_plain:
  assumes "\<forall>c \<in> set s. is_term_char c"
  shows "strtol s base =
           (let s3 = (if base = 16 \<and> is_0x s then drop 2 s else s);
                ds = takeWhile (\<lambda>c. digit_val c < base) s3
            in min (foldl (\<lambda>a c. a * int base + int (digit_val c)) 0 ds) LONG_MAX)"
proof -
  have nn: "NUL \<notin> set s" using assms term_char_plain by blast
  have d: "dropWhile isspace s = s"
    using assms term_char_plain by (cases s) auto
  have sg: "rd s 0 \<noteq> CHR ''-'' \<and> rd s 0 \<noteq> CHR ''+''"
    using assms term_char_plain by (cases s) (auto simp: NUL_def)
  show ?thesis
    using d sg is_0x_rd [OF nn] by (simp add: strtol_def Let_def)
qed

lemma strtol_decimal:
  assumes "list_all isdigit t"
  shows "strtol t 10 = min (decimal_value t) LONG_MAX"
proof -
  have tc: "\<forall>c \<in> set t. is_term_char c"
    using assms by (auto simp: list_all_iff is_term_char_def isalnum_def)
  have tw: "takeWhile (\<lambda>c. digit_val c < 10) t = t"
    using assms digit_val_10 by (auto simp: list_all_iff takeWhile_eq_all_conv)
  have f: "foldl (\<lambda>a c. a * 10 + int (digit_val c)) 0 t = decimal_value t"
    unfolding decimal_value_def using assms digit_val_10
    by (intro foldl_digits_cong) (auto simp: list_all_iff)
  show ?thesis
    using strtol_plain [OF tc, of 10] tw f by (simp add: Let_def)
qed

lemma strtol_hexadecimal:
  assumes "\<forall>c \<in> set r. is_term_char c"
  shows "strtol r 16 = min (hexadecimal_value (hex_digits r)) LONG_MAX"
proof -
  have f: "foldl (\<lambda>a c. a * 16 + int (digit_val c)) 0 (hex_digits r) = hexadecimal_value (hex_digits r)"
    unfolding hexadecimal_value_def
    by (intro foldl_digits_cong digit_val_hex) (auto simp: hex_digits_def dest: set_takeWhileD)
  have tw: "takeWhile (\<lambda>c. digit_val c < 16) x = takeWhile isxdigit x" for x
    by (simp add: digit_val_16_iff)
  show ?thesis
    using strtol_plain [OF assms, of 16] f by (simp add: Let_def tw hex_digits_def)
qed

lemma token_add_empty: "token_len st = 0 \<Longrightarrow> token_add g st = (0, st)"
  by (simp add: token_add_def)

lemma token_add_term:
  assumes len: "0 < token_len st" "token_len st \<le> 63"
    and t: "buffered st = t" and tc: "\<forall>c \<in> set t. is_term_char c"
  shows "\<exists>st'. token_add g st = (case term_value g t of Inl e \<Rightarrow> - 1 | Inr v \<Rightarrow> 0, st')
           \<and> token_len st' = 0
           \<and> token_mult st' = token_mult st
           \<and> token_sum st' = (case term_value g t of Inl e \<Rightarrow> token_sum st
                               | Inr v \<Rightarrow> token_sum st + token_mult st * word_of_int v)
           \<and> stderr st' = stderr st @ (case term_value g t of
                               Inl e \<Rightarrow> ''unknown token: '' @ e @ [CHR 0x0A] | Inr v \<Rightarrow> [])"
proof -
  define b where "b = (token_buf st)(token_len st := NUL)"
  have nn: "NUL \<notin> set t"
    using tc term_char_plain by blast
  have lt: "length t = token_len st"
    using t len length_buffered [of st] by simp
  have split: "buf_bytes b = t @ NUL # drop (Suc (token_len st)) (buf_bytes (token_buf st))"
    unfolding b_def using buf_bytes_split [OF len(2)] t by (simp add: buffered_def)
  have c: "cstr (buf_bytes b) = t"
    unfolding split using nn by (rule cstr_append_NUL)
  have c2: "cstr_at (buf_bytes b) 2 = drop 2 t" if "2 \<le> length t"
    unfolding split using nn that by (rule cstr_at_append_NUL)
  have brd: "b i = rd t i" if "i \<le> length t" for i
  proof -
    have "i < 64" using that lt len by simp
    then have "b i = buf_bytes b ! i" by (simp add: nth_buf_bytes)
    also have "\<dots> = rd t i" using that unfolding split by (auto simp: nth_append rd_def)
    finally show ?thesis .
  qed
  have dig: "b (length (takeWhile isdigit t)) = NUL \<longleftrightarrow> list_all isdigit t"
    using brd [of "length (takeWhile isdigit t)"] digits_scan [OF nn]
    by (simp add: length_takeWhile_le)
  have hex: "b 0 = CHR ''0'' \<and> tolower (b 1) = CHR ''x'' \<longleftrightarrow> is_0x t"
    using brd [of 0] brd [of 1] lt len is_0x_rd [OF nn] by simp
  have hex_len: "2 \<le> length t" if "is_0x t"
    using that by (auto simp: is_0x_def split: list.splits)
  have wi: "word_of_int (sint (token_mult st) * x) = token_mult st * (word_of_int x :: c_int)" for x
    by simp
  have dec: "strtol t 10 = min (decimal_value t) LONG_MAX" if "list_all isdigit t"
    using that by (rule strtol_decimal)
  have "\<forall>c \<in> set (drop 2 t). is_term_char c"
    using tc by (meson in_set_dropD)
  then have hx: "strtol (drop 2 t) 16 = min (hexadecimal_value (hex_digits (drop 2 t))) LONG_MAX"
    by (rule strtol_hexadecimal)
  show ?thesis
    using len(1) dig hex c c2 hex_len wi dec hx
    by (auto simp: token_add_def Let_def b_def [symmetric] term_value_def atoi_def
             split: option.splits)
qed

section \<open>The loop of addr_exp, item by item\<close>

lemma addr_exp_via_tail:
  "addr_exp g txt a st =
     (case addr_exp_tail g txt (st\<lparr>token_len := 0, token_mult := 1, token_sum := 0\<rparr>) of
        (r, st2) \<Rightarrow> if sint r < 0 then (- 1, a, st2) else (0, token_sum st2 AND 0xffff, st2))"
  by (auto simp: addr_exp_def addr_exp_tail_def split: prod.splits)

lemma tail_Nil: "token_len st = 0 \<Longrightarrow> addr_exp_tail g [] st = (0, st)"
  by (simp add: addr_exp_tail_def token_add_empty)

lemma tail_sep:
  "\<not> is_term_char d \<Longrightarrow> d \<noteq> NUL \<Longrightarrow> token_len st = 0 \<Longrightarrow>
     addr_exp_tail g (d # ds) st = addr_exp_tail g ds (set_sign d st)"
  by (simp add: addr_exp_tail_def token_add_empty set_sign_def Let_def)

lemma tail_term_end:
  "\<forall>c \<in> set t. is_term_char c \<Longrightarrow>
     addr_exp_tail g t st =
       (case token_add g (fold token_put t st) of
          (r2, st2) \<Rightarrow> if sint r2 < 0 then (- 1, st2) else (0, st2))"
  using loop_term_run [of t g "[]" st] by (simp add: addr_exp_tail_def)

lemma tail_term_sep:
  assumes "\<forall>c \<in> set t. is_term_char c" "\<not> is_term_char d" "d \<noteq> NUL"
  shows "addr_exp_tail g (t @ d # ds) st =
       (case token_add g (fold token_put t st) of
          (r, st1) \<Rightarrow> if sint r < 0 then (- 1, st1) else addr_exp_tail g ds (set_sign d st1))"
  using loop_term_run [OF assms(1), of g "d # ds" st] assms(2,3)
  by (simp add: addr_exp_tail_def set_sign_def Let_def split: prod.splits)

lemma set_sign_fields [simp]:
  "token_len (set_sign d st) = token_len st"
  "token_sum (set_sign d st) = token_sum st"
  "stderr (set_sign d st) = stderr st"
  "token_mult (set_sign d st) = (if d = CHR ''+'' then 1 else if d = CHR ''-'' then - 1 else token_mult st)"
  by (simp_all add: set_sign_def Let_def)

lemma token_add_after_run:
  assumes t: "t \<noteq> []" "\<forall>c \<in> set t. is_term_char c" and len: "token_len st = 0"
    and S: "token_sum st = word_of_int S" and M: "token_mult st = word_of_int M"
  shows "\<exists>st'. token_add g (fold token_put t st)
                  = (case term_value g (take 63 t) of Inl e \<Rightarrow> - 1 | Inr v \<Rightarrow> 0, st')
           \<and> token_len st' = 0
           \<and> token_mult st' = word_of_int M
           \<and> (\<forall>v. term_value g (take 63 t) = Inr v \<longrightarrow> token_sum st' = word_of_int (S + M * v))
           \<and> stderr st' = stderr st @ (case term_value g (take 63 t) of
                               Inl e \<Rightarrow> unknown_token e | Inr v \<Rightarrow> [])"
proof -
  let ?st1 = "fold token_put t st"
  have b: "buffered ?st1 = take 63 t"
    using buffered_fold_put [of st t] len by (simp add: buffered_def)
  have l63: "token_len ?st1 \<le> 63"
    using token_len_fold_put [of st t] len by simp
  have "length (buffered ?st1) = token_len ?st1"
    using l63 by (rule length_buffered)
  then have pos: "0 < token_len ?st1"
    using b t(1) by (cases t) auto
  have tc: "\<forall>c \<in> set (take 63 t). is_term_char c"
    using t(2) by (meson in_set_takeD)
  from token_add_term [OF pos l63 b tc, of g] obtain st' where
    st': "token_add g ?st1 = (case term_value g (take 63 t) of Inl e \<Rightarrow> - 1 | Inr v \<Rightarrow> 0, st')"
      "token_len st' = 0" "token_mult st' = token_mult ?st1"
      "token_sum st' = (case term_value g (take 63 t) of Inl e \<Rightarrow> token_sum ?st1
                               | Inr v \<Rightarrow> token_sum ?st1 + token_mult ?st1 * word_of_int v)"
      "stderr st' = stderr ?st1 @ (case term_value g (take 63 t) of
                               Inl e \<Rightarrow> ''unknown token: '' @ e @ [CHR 0x0A] | Inr v \<Rightarrow> [])"
    by blast
  show ?thesis
    using st' S M by (intro exI [of _ st']) (auto simp: unknown_token_def split: sum.splits)
qed

lemma tail_refines:
  assumes "NUL \<notin> set xs" "token_len st = 0"
    and "token_sum st = word_of_int S" "token_mult st = word_of_int M"
  shows "\<exists>st'. addr_exp_tail g xs st
                  = (case spec_pass g (take 63) (items xs) S M of Inl e \<Rightarrow> - 1 | Inr v \<Rightarrow> 0, st')
           \<and> (\<forall>v. spec_pass g (take 63) (items xs) S M = Inr v \<longrightarrow> token_sum st' = word_of_int v)
           \<and> stderr st' = stderr st @ (case spec_pass g (take 63) (items xs) S M of
                               Inl e \<Rightarrow> unknown_token e | Inr v \<Rightarrow> [])"
  using assms
proof (induction xs arbitrary: st S M rule: length_induct)
  case (1 xs)
  note IH = "1.IH" [rule_format]
  show ?case
  proof (cases xs)
    case Nil
    then show ?thesis
      using "1.prems" by (simp add: tail_Nil)
  next
    case (Cons c cs)
    have cN: "c \<noteq> NUL" and csN: "NUL \<notin> set cs"
      using "1.prems"(1) Cons by auto
    show ?thesis
    proof (cases "is_term_char c")
      case False
      let ?M' = "if c = CHR ''+'' then 1 else if c = CHR ''-'' then - 1 else M"
      let ?st = "set_sign c st"
      have step: "addr_exp_tail g xs st = addr_exp_tail g cs ?st"
        unfolding Cons using False cN "1.prems"(2) by (rule tail_sep)
      have it: "spec_pass g (take 63) (items xs) S M = spec_pass g (take 63) (items cs) S ?M'"
        using False by (simp add: Cons)
      have m: "token_mult ?st = word_of_int ?M'"
        using "1.prems"(4) by simp
      have "length cs < length xs" by (simp add: Cons)
      from IH [OF this csN, of ?st S ?M'] m "1.prems"(2,3)
      show ?thesis
        unfolding step it by simp
    next
      case True
      define t where "t = c # takeWhile is_term_char cs"
      define rest where "rest = dropWhile is_term_char cs"
      have xs: "xs = t @ rest"
        by (simp add: Cons t_def rest_def)
      have tt: "\<forall>x \<in> set t. is_term_char x"
        using True by (auto simp: t_def dest: set_takeWhileD)
      have tne: "t \<noteq> []" by (simp add: t_def)
      have it: "items xs = Term t # items rest"
        using True by (simp add: Cons t_def rest_def)
      from token_add_after_run [OF tne tt "1.prems"(2,3,4), of g] obtain st1 where
        st1: "token_add g (fold token_put t st)
                = (case term_value g (take 63 t) of Inl e \<Rightarrow> - 1 | Inr v \<Rightarrow> 0, st1)"
          "token_len st1 = 0" "token_mult st1 = word_of_int M"
          "\<forall>v. term_value g (take 63 t) = Inr v \<longrightarrow> token_sum st1 = word_of_int (S + M * v)"
          "stderr st1 = stderr st @ (case term_value g (take 63 t) of
                               Inl e \<Rightarrow> unknown_token e | Inr v \<Rightarrow> [])"
        by blast
      show ?thesis
      proof (cases rest)
        case Nil
        have e: "addr_exp_tail g xs st =
                   (case token_add g (fold token_put t st) of
                      (r2, st2) \<Rightarrow> if sint r2 < 0 then (- 1, st2) else (0, st2))"
          unfolding xs Nil using tail_term_end [OF tt] by simp
        show ?thesis
          unfolding e it Nil using st1
          by (cases "term_value g (take 63 t)") auto
      next
        case (Cons d ds)
        have dN: "d \<noteq> NUL" and dsN: "NUL \<notin> set ds"
          using csN Cons set_dropWhileD [of _ is_term_char cs] by (auto simp: rest_def)
        have dT: "\<not> is_term_char d"
          using Cons hd_dropWhile [of is_term_char cs] by (simp add: rest_def)
        have e: "addr_exp_tail g xs st =
                   (case token_add g (fold token_put t st) of
                      (r, s1) \<Rightarrow> if sint r < 0 then (- 1, s1) else addr_exp_tail g ds (set_sign d s1))"
          unfolding xs Cons using tt dT dN by (rule tail_term_sep)
        show ?thesis
        proof (cases "term_value g (take 63 t)")
          case (Inl err)
          then show ?thesis
            unfolding e it Cons using st1 dT by auto
        next
          case (Inr v)
          let ?M' = "if d = CHR ''+'' then 1 else if d = CHR ''-'' then - 1 else M"
          let ?st = "set_sign d st1"
          have sp: "spec_pass g (take 63) (items xs) S M
                      = spec_pass g (take 63) (items ds) (S + M * v) ?M'"
            unfolding it Cons using Inr dT by simp
          have e2: "addr_exp_tail g xs st = addr_exp_tail g ds ?st"
            unfolding e using st1(1) Inr by simp
          have len: "length ds < length xs"
            by (simp add: xs Cons)
          have p2: "token_len ?st = 0" using st1(2) by simp
          have p3: "token_sum ?st = word_of_int (S + M * v)" using st1(4) Inr by simp
          have p4: "token_mult ?st = word_of_int ?M'" using st1(3) by simp
          have p5: "stderr ?st = stderr st" using st1(5) Inr by simp
          from IH [OF len dsN p2 p3 p4]
          show ?thesis
            unfolding e2 sp p5 .
        qed
      qed
    qed
  qed
qed

section \<open>addr_exp is the pass over the items\<close>

lemma ffff_mask: "(0xffff :: c_int) = mask 16"
  by (simp add: mask_eq_exp_minus_1)

lemma and_ffff_word_of_int: "(word_of_int v :: c_int) AND 0xffff = word_of_int (v mod 65536)"
  unfolding ffff_mask by (simp add: and_mask_wi take_bit_eq_mod)

lemma uint_word_of_int_mod16: "uint (word_of_int (v mod 65536) :: c_int) = v mod 65536"
proof -
  have "v mod 65536 < 4294967296"
    by (rule less_trans [of _ 65536]) simp_all
  then show ?thesis by (simp add: uint_word_of_int)
qed

lemma loop_cstr: "addr_exp_loop g s st = addr_exp_loop g (cstr s) st"
  by (induction s arbitrary: st) (auto simp: cstr_Cons split: prod.splits)

lemma tail_cstr: "addr_exp_tail g s st = addr_exp_tail g (cstr s) st"
  using loop_cstr [of g s st] by (simp add: addr_exp_tail_def)

lemma addr_exp_refines:
  "\<exists>st'. addr_exp g s a st
           = (case spec_pass g (take 63) (items (cstr s)) 0 1 of
                Inl e \<Rightarrow> (- 1, a, st')
              | Inr v \<Rightarrow> (0, token_sum st' AND 0xffff, st'))
         \<and> (\<forall>v. spec_pass g (take 63) (items (cstr s)) 0 1 = Inr v \<longrightarrow> token_sum st' = word_of_int v)
         \<and> stderr st' = stderr st @ (case spec_pass g (take 63) (items (cstr s)) 0 1 of
                                        Inl e \<Rightarrow> unknown_token e | Inr v \<Rightarrow> [])"
proof -
  let ?st = "st\<lparr>token_len := 0, token_mult := 1, token_sum := 0\<rparr>"
  let ?P = "spec_pass g (take 63) (items (cstr s)) 0 1"
  have "NUL \<notin> set (cstr s)" by (rule cstr_no_NUL)
  from tail_refines [OF this, of ?st 0 1 g] obtain st' where
    st': "addr_exp_tail g (cstr s) ?st = (case ?P of Inl e \<Rightarrow> - 1 | Inr v \<Rightarrow> 0, st')"
      "\<forall>v. ?P = Inr v \<longrightarrow> token_sum st' = word_of_int v"
      "stderr st' = stderr ?st @ (case ?P of Inl e \<Rightarrow> unknown_token e | Inr v \<Rightarrow> [])"
    by auto
  have t: "addr_exp_tail g s ?st = (case ?P of Inl e \<Rightarrow> - 1 | Inr v \<Rightarrow> 0, st')"
    using st'(1) tail_cstr [of g s ?st] by simp
  show ?thesis
    using t st'(2,3) by (intro exI [of _ st']) (simp add: addr_exp_via_tail split: sum.splits)
qed

lemma addr_exp_status:
  "fst (addr_exp g s a st) = (case spec_addr_exp g s of Inl e \<Rightarrow> - 1 | Inr v \<Rightarrow> 0)"
  using addr_exp_refines [of g s a st]
  by (auto simp: spec_addr_exp_def split: sum.splits)

lemma addr_exp_cell:
  "fst (snd (addr_exp g s a st)) = (case spec_addr_exp g s of Inl e \<Rightarrow> a | Inr v \<Rightarrow> word_of_int v)"
  using addr_exp_refines [of g s a st]
  by (auto simp: spec_addr_exp_def and_ffff_word_of_int split: sum.splits)

lemma addr_exp_stderr:
  "stderr (snd (snd (addr_exp g s a st)))
     = stderr st @ (case spec_addr_exp g s of Inl e \<Rightarrow> unknown_token e | Inr v \<Rightarrow> [])"
  using addr_exp_refines [of g s a st]
  by (auto simp: spec_addr_exp_def split: sum.splits)

lemma spec_pass_Inl: "spec_pass g keep its S M = Inl e \<Longrightarrow> g e = None"
proof (induction its arbitrary: S M)
  case Nil
  then show ?case by simp
next
  case (Cons i its)
  then show ?case
    by (cases i) (auto simp: term_value_def split: sum.splits if_splits option.splits)
qed

lemma spec_pass_unresolved:
  "Term t \<in> set its \<Longrightarrow> term_value g (keep t) = Inl e \<Longrightarrow> \<exists>e'. spec_pass g keep its S M = Inl e'"
proof (induction its arbitrary: S M)
  case Nil
  then show ?case by simp
next
  case (Cons i its)
  then show ?case
    by (cases i) (auto split: sum.splits)
qed

lemma items_separators: "\<forall>c \<in> set s. \<not> is_term_char c \<Longrightarrow> items s = map Sep s"
  by (induction s) auto

lemma spec_pass_separators: "spec_pass g keep (map Sep s) S M = Inr S"
  by (induction s arbitrary: M) auto

lemma is_0x_take: "is_0x (take 63 t) = is_0x t"
  by (cases t; cases "tl t") (auto simp: is_0x_def)

section \<open>Address expressions\<close>

lemma addr_exp_obs:
  "addr_status g s a st = (case spec_addr_exp g s of Inl e \<Rightarrow> - 1 | Inr v \<Rightarrow> 0)"
  "addr_cell g s a st = (case spec_addr_exp g s of Inl e \<Rightarrow> a | Inr v \<Rightarrow> word_of_int v)"
  "addr_stderr g s a st = stderr st @ (case spec_addr_exp g s of Inl e \<Rightarrow> unknown_token e | Inr v \<Rightarrow> [])"
  by (simp_all add: addr_status_def addr_cell_def addr_stderr_def addr_exp_status addr_exp_cell
        addr_exp_stderr)

lemma spec_examples:
  "spec_addr_exp g ''10'' = Inr 10"
  "spec_addr_exp g ''0x10'' = Inr 16"
  "spec_addr_exp g ''2+3'' = Inr 5"
  "spec_addr_exp g ''0x10-1'' = Inr 15"
  "spec_addr_exp sample_stab ''a+b-c'' = Inr 6"
  by code_simp+

text \<open>
  C1, amended. Evaluating an address expression equals a single pass from left to right
  over its terms, each term first cut to its first 63 characters, the capacity of the token
  buffer: the sum starts at 0 and the sign at +1; each term contributes sign * value, where
  a term of all decimal digits has its decimal value, a term whose first two characters
  are \<open>0x\<close> or \<open>0X\<close> has the value of the leading hexadecimal digits of its remainder
  (after one more optional \<open>0x\<close>), both capped at \<open>LONG_MAX\<close>, and any other term is
  resolved through the symbol table, an unresolved one failing the evaluation with the
  cell unchanged; \<open>+\<close> sets the sign to +1, \<open>-\<close> to -1, any other separator leaves it.
  The cell receives the sum modulo \<open>2^16\<close>. So 10 gives 10, 0x10 gives 16, 2+3 gives 5,
  0x10-1 gives 15, and a+b-c gives 6 with a = 5, b = 3, c = 2.
\<close>

theorem addr_exp_single_pass:
  "addr_status g s a st = (case spec_addr_exp g s of Inl e \<Rightarrow> - 1 | Inr v \<Rightarrow> 0)
   \<and> addr_cell g s a st = (case spec_addr_exp g s of Inl e \<Rightarrow> a | Inr v \<Rightarrow> word_of_int v)
   \<and> (addr_status g ''10'' a st, addr_cell g ''10'' a st) = (0, 10)
   \<and> (addr_status g ''0x10'' a st, addr_cell g ''0x10'' a st) = (0, 16)
   \<and> (addr_status g ''2+3'' a st, addr_cell g ''2+3'' a st) = (0, 5)
   \<and> (addr_status g ''0x10-1'' a st, addr_cell g ''0x10-1'' a st) = (0, 15)
   \<and> (addr_status sample_stab ''a+b-c'' a st, addr_cell sample_stab ''a+b-c'' a st) = (0, 6)"
  by (simp add: addr_exp_obs spec_examples)

theorem addr_exp_single_pass_witness:
  "addr_status sample_stab ''a+b-d+1'' 7 state0 = - 1
   \<and> addr_cell sample_stab ''a+b-d+1'' 7 state0 = 7
   \<and> (addr_status sample_stab ''a+b-c'' 7 state0, addr_cell sample_stab ''a+b-c'' 7 state0) = (0, 6)"
proof -
  have "spec_addr_exp sample_stab ''a+b-d+1'' = Inl ''d''"
    by code_simp
  then show ?thesis
    using addr_exp_single_pass [of sample_stab "''a+b-d+1''" 7 state0] by simp
qed

text \<open>
  The claim as worded, on whole terms, fails on a term of 64 characters: 63 zeros followed
  by 1 is a term of decimal digits whose decimal value is 1, and \<open>addr_exp\<close> stores 0.
\<close>

theorem addr_exp_whole_term_counterexample:
  "claimed_addr_exp sample_stab (replicate 63 CHR ''0'' @ ''1'') = Inr 1
   \<and> addr_status sample_stab (replicate 63 CHR ''0'' @ ''1'') 7 state0 = 0
   \<and> addr_cell sample_stab (replicate 63 CHR ''0'' @ ''1'') 7 state0 = 0"
  by code_simp

text \<open>
  C3, amended. If the first 63 characters of any term of the expression are not all
  decimal digits, the term does not start with \<open>0x\<close> or \<open>0X\<close>, and the symbol table
  does not resolve those 63 characters, then \<open>addr_exp\<close> returns -1, the cell
  \<open>*addr\<close> keeps its value, and one "unknown token" line for an unresolved name is
  written; whatever follows the term in the expression does not change this.
\<close>

theorem addr_exp_unresolved_aborts:
  assumes "Term t \<in> set (items (cstr s))"
    and "\<not> list_all isdigit (take 63 t)" and "\<not> is_0x t" and "g (take 63 t) = None"
  shows "addr_status g s a st = - 1 \<and> addr_cell g s a st = a
         \<and> (\<exists>e. g e = None \<and> addr_stderr g s a st = stderr st @ unknown_token e)"
proof -
  have "term_value g (take 63 t) = Inl (take 63 t)"
    using assms(2,3,4) by (simp add: term_value_def is_0x_take)
  from spec_pass_unresolved [where keep = "take 63", OF assms(1) this, of 0 1]
  obtain e where e: "spec_pass g (take 63) (items (cstr s)) 0 1 = Inl e"
    by blast
  then have "g e = None" by (rule spec_pass_Inl)
  then show ?thesis
    using e by (auto simp: addr_exp_obs spec_addr_exp_def)
qed

theorem addr_exp_unresolved_aborts_witness:
  "Term ''unknown_sym'' \<in> set (items (cstr ''unknown_sym+1''))
   \<and> \<not> list_all isdigit (take 63 ''unknown_sym'') \<and> \<not> is_0x ''unknown_sym''
   \<and> sample_stab (take 63 ''unknown_sym'') = None
   \<and> addr_status sample_stab ''unknown_sym+1'' 7 state0 = - 1
   \<and> addr_cell sample_stab ''unknown_sym+1'' 7 state0 = 7"
proof -
  have h1: "Term ''unknown_sym'' \<in> set (items (cstr ''unknown_sym+1''))"
    by code_simp
  have h2: "\<not> list_all isdigit (take 63 ''unknown_sym'')"
    by code_simp
  have h3: "\<not> is_0x ''unknown_sym''"
    by code_simp
  have h4: "sample_stab (take 63 ''unknown_sym'') = None"
    by code_simp
  show ?thesis
    using h1 h2 h3 h4
      addr_exp_unresolved_aborts [of "''unknown_sym''" "''unknown_sym+1''" sample_stab 7 state0]
    by simp
qed

text \<open>
  The claim as worded, on whole terms, fails on 63 zeros followed by \<open>a\<close>: this term is
  not all decimal, has no \<open>0x\<close> prefix and is not in the symbol table, yet
  \<open>addr_exp\<close> returns 0 and overwrites the cell, having kept only the 63 zeros.
\<close>

theorem addr_exp_unresolved_long_counterexample:
  "Term (replicate 63 CHR ''0'' @ ''a'') \<in> set (items (cstr (replicate 63 CHR ''0'' @ ''a'')))
   \<and> \<not> list_all isdigit (replicate 63 CHR ''0'' @ ''a'')
   \<and> \<not> is_0x (replicate 63 CHR ''0'' @ ''a'')
   \<and> sample_stab (replicate 63 CHR ''0'' @ ''a'') = None
   \<and> addr_status sample_stab (replicate 63 CHR ''0'' @ ''a'') 7 state0 = 0
   \<and> addr_cell sample_stab (replicate 63 CHR ''0'' @ ''a'') 7 state0 = 0"
  by code_simp

text \<open>
  C10. An expression without any term character (the empty string, or only separators
  such as \<open>+\<close>, \<open>-\<close> and white space) evaluates successfully: \<open>addr_exp\<close> returns
  0, stores 0 and writes nothing to \<open>stderr\<close>.
\<close>

theorem addr_exp_no_terms:
  assumes "\<forall>c \<in> set (cstr s). \<not> is_term_char c"
  shows "addr_status g s a st = 0 \<and> addr_cell g s a st = 0 \<and> addr_stderr g s a st = stderr st"
proof -
  have "spec_addr_exp g s = Inr 0"
    using items_separators [OF assms] by (simp add: spec_addr_exp_def spec_pass_separators)
  then show ?thesis by (simp add: addr_exp_obs)
qed

theorem addr_exp_no_terms_witness:
  "list_all (\<lambda>c. \<not> is_term_char c) (cstr ''+ -'')
   \<and> addr_status sample_stab ''+ -'' 7 state0 = 0 \<and> addr_cell sample_stab ''+ -'' 7 state0 = 0
   \<and> addr_status sample_stab '''' 7 state0 = 0 \<and> addr_cell sample_stab '''' 7 state0 = 0"
proof -
  have h1: "\<forall>c \<in> set (cstr ''+ -''). \<not> is_term_char c"
    by code_simp
  have h2: "\<forall>c \<in> set (cstr ''''). \<not> is_term_char c"
    by simp
  show ?thesis
    using h1 addr_exp_no_terms [OF h1, of sample_stab 7 state0]
      addr_exp_no_terms [OF h2, of sample_stab 7 state0] by (simp add: list_all_iff)
qed

lemma wrap_examples:
  "spec_addr_exp g ''70000'' = Inr 4464"
  "spec_addr_exp g ''69999+1'' = Inr 4464"
  "spec_addr_exp g ''2147483647+1'' = Inr 0"
  "spec_addr_exp g ''0-1'' = Inr 65535"
  "spec_addr_exp g ''99999999999999999999'' = Inr 65535"
  by code_simp+

text \<open>
  C4. Whenever \<open>addr_exp\<close> returns 0, the cell holds \<open>token_sum AND 0xffff\<close>, where
  \<open>token_sum\<close> is the accumulated signed sum of the pass cut to an \<open>int\<close>; as a number
  the cell is that sum modulo 65536. The only failure is an unresolved symbol, reported as
  an unknown token: with a symbol table that resolves every name the evaluation always
  succeeds, so no overflow is ever an error. 70000 and 69999+1 give 4464, 2147483647+1
  gives 0, 0-1 gives 65535, and a literal of twenty nines is accepted.
\<close>

theorem addr_exp_masks_sum:
  "(addr_status g s a st = 0 \<longrightarrow>
      addr_cell g s a st = addr_sum g s a st AND 0xffff
      \<and> (\<exists>v. spec_pass g (take 63) (items (cstr s)) 0 1 = Inr v
               \<and> addr_sum g s a st = word_of_int v
               \<and> uint (addr_cell g s a st) = v mod 65536))
   \<and> (addr_status g s a st \<noteq> 0 \<longrightarrow>
        (\<exists>e. g e = None \<and> addr_stderr g s a st = stderr st @ unknown_token e))
   \<and> ((\<forall>n. g n \<noteq> None) \<longrightarrow> addr_status g s a st = 0)
   \<and> (addr_status g ''70000'' a st, addr_cell g ''70000'' a st) = (0, 4464)
   \<and> (addr_status g ''69999+1'' a st, addr_cell g ''69999+1'' a st) = (0, 4464)
   \<and> (addr_status g ''2147483647+1'' a st, addr_cell g ''2147483647+1'' a st) = (0, 0)
   \<and> (addr_status g ''0-1'' a st, addr_cell g ''0-1'' a st) = (0, 65535)
   \<and> addr_status g ''99999999999999999999'' a st = 0"
proof -
  let ?P = "spec_pass g (take 63) (items (cstr s)) 0 1"
  from addr_exp_refines [of g s a st] obtain st' where
    r: "addr_exp g s a st = (case ?P of Inl e \<Rightarrow> (- 1, a, st')
                             | Inr v \<Rightarrow> (0, token_sum st' AND 0xffff, st'))"
      "\<forall>v. ?P = Inr v \<longrightarrow> token_sum st' = word_of_int v"
      "stderr st' = stderr st @ (case ?P of Inl e \<Rightarrow> unknown_token e | Inr v \<Rightarrow> [])"
    by blast
  have general:
    "(addr_status g s a st = 0 \<longrightarrow>
        addr_cell g s a st = addr_sum g s a st AND 0xffff
        \<and> (\<exists>v. ?P = Inr v \<and> addr_sum g s a st = word_of_int v
                 \<and> uint (addr_cell g s a st) = v mod 65536))
     \<and> (addr_status g s a st \<noteq> 0 \<longrightarrow>
          (\<exists>e. g e = None \<and> addr_stderr g s a st = stderr st @ unknown_token e))
     \<and> ((\<forall>n. g n \<noteq> None) \<longrightarrow> addr_status g s a st = 0)"
  proof (cases ?P)
    case (Inl e)
    then have "g e = None" by (rule spec_pass_Inl)
    then show ?thesis
      using r Inl by (auto simp: addr_status_def addr_cell_def addr_sum_def addr_stderr_def)
  next
    case (Inr v)
    then have ts: "token_sum st' = word_of_int v" using r(2) by simp
    have "uint (token_sum st' AND 0xffff) = v mod 65536"
      unfolding ts and_ffff_word_of_int by (rule uint_word_of_int_mod16)
    then show ?thesis
      using r Inr ts by (simp add: addr_status_def addr_cell_def addr_sum_def addr_stderr_def)
  qed
  have examples:
    "(addr_status g ''70000'' a st, addr_cell g ''70000'' a st) = (0, 4464)
     \<and> (addr_status g ''69999+1'' a st, addr_cell g ''69999+1'' a st) = (0, 4464)
     \<and> (addr_status g ''2147483647+1'' a st, addr_cell g ''2147483647+1'' a st) = (0, 0)
     \<and> (addr_status g ''0-1'' a st, addr_cell g ''0-1'' a st) = (0, 65535)
     \<and> addr_status g ''99999999999999999999'' a st = 0"
    by (simp add: addr_exp_obs wrap_examples)
  from general examples show ?thesis by blast
qed

theorem addr_exp_masks_sum_witness:
  "addr_status sample_stab ''70000'' 7 state0 = 0
   \<and> addr_sum sample_stab ''70000'' 7 state0 = 70000
   \<and> addr_cell sample_stab ''70000'' 7 state0 = 70000 AND 0xffff
   \<and> addr_cell sample_stab ''70000'' 7 state0 = 4464
   \<and> addr_status sample_stab ''zz'' 7 state0 \<noteq> 0
   \<and> addr_stderr sample_stab ''zz'' 7 state0 = unknown_token ''zz''
   \<and> addr_status (\<lambda>n. Some 1) ''foo+bar'' 7 state0 = 0"
proof -
  have p: "spec_pass sample_stab (take 63) (items (cstr ''70000'')) 0 1 = Inr 70000"
    by code_simp
  have z: "spec_addr_exp sample_stab ''zz'' = Inl ''zz''"
    by code_simp
  have t: "\<forall>n. (\<lambda>n. Some 1 :: 16 word option) n \<noteq> None"
    by simp
  from z have zs: "addr_status sample_stab ''zz'' 7 state0 \<noteq> 0"
    "addr_stderr sample_stab ''zz'' 7 state0 = unknown_token ''zz''"
    by (simp_all add: addr_exp_obs state0_def)
  show ?thesis
    using addr_exp_masks_sum [of sample_stab "''70000''" 7 state0]
      addr_exp_masks_sum [of "\<lambda>n. Some 1" "''foo+bar''" 7 state0] p zs t
    by auto
qed

section \<open>The line buffer\<close>

lemma not_space_NUL [simp]: "\<not> isspace NUL"
  by (simp add: isspace_def NUL_def)

lemma rd_in_range: "rd m p \<noteq> NUL \<Longrightarrow> p < length m"
  by (simp add: rd_def split: if_splits)

lemma cstr_at_unfold:
  "cstr_at m p = (if rd m p = NUL then [] else rd m p # cstr_at m (p + 1))"
proof (cases "p < length m")
  case True
  then have "drop p m = m ! p # drop (Suc p) m"
    by (simp add: Cons_nth_drop_Suc)
  then show ?thesis using True by (simp add: cstr_at_def rd_def)
next
  case False
  then show ?thesis by (simp add: cstr_at_def rd_def)
qed

lemma rd_wr: "rd (wr m p c) q = (if q = p then c else rd m q)"
  by (auto simp: rd_def wr_def nth_append nth_Cons split: nat.splits)

lemma cstr_at_eqI:
  "(\<And>i. i < length xs \<Longrightarrow> rd m (p + i) = xs ! i) \<Longrightarrow> NUL \<notin> set xs \<Longrightarrow>
     rd m (p + length xs) = NUL \<Longrightarrow> cstr_at m p = xs"
proof (induction xs arbitrary: p)
  case Nil
  then show ?case by (subst cstr_at_unfold) simp
next
  case (Cons x xs)
  have h: "rd m p = x" using Cons.prems(1) [of 0] by simp
  have "cstr_at m (p + 1) = xs"
  proof (rule Cons.IH)
    fix i assume "i < length xs"
    then show "rd m (p + 1 + i) = xs ! i" using Cons.prems(1) [of "Suc i"] by simp
  next
    show "NUL \<notin> set xs" using Cons.prems(2) by simp
  next
    show "rd m (p + 1 + length xs) = NUL" using Cons.prems(3) by simp
  qed
  then show ?case
    using h Cons.prems(2) by (subst cstr_at_unfold) auto
qed

lemma cstr_at_no_NUL: "NUL \<notin> set (cstr_at m p)"
  unfolding cstr_at_def by (metis (mono_tags, lifting) set_takeWhileD)

lemma rd_cstr_at: "i < length (cstr_at m p) \<Longrightarrow> rd m (p + i) = cstr_at m p ! i"
proof (induction i arbitrary: p)
  case 0
  then show ?case by (subst (asm) cstr_at_unfold, subst cstr_at_unfold) (simp split: if_splits)
next
  case (Suc i)
  from Suc.prems have nz: "rd m p \<noteq> NUL"
    by (subst (asm) cstr_at_unfold) (simp split: if_splits)
  then have c: "cstr_at m p = rd m p # cstr_at m (p + 1)"
    by (subst cstr_at_unfold) simp
  have "i < length (cstr_at m (p + 1))" using Suc.prems c by simp
  from Suc.IH [OF this] show ?case using c by simp
qed

lemma rd_cstr_at_end: "rd m (p + length (cstr_at m p)) = NUL"
proof (induction "length (cstr_at m p)" arbitrary: p)
  case 0
  then have e: "cstr_at m p = []" by simp
  have "rd m p = NUL"
  proof (rule ccontr)
    assume "rd m p \<noteq> NUL"
    then have "cstr_at m p \<noteq> []" by (subst cstr_at_unfold) simp
    with e show False by simp
  qed
  then show ?case using e by simp
next
  case (Suc n)
  from Suc.hyps(2) have nz: "rd m p \<noteq> NUL"
    by (subst (asm) cstr_at_unfold) (simp split: if_splits)
  then have c: "cstr_at m p = rd m p # cstr_at m (p + 1)"
    by (subst cstr_at_unfold) simp
  have "n = length (cstr_at m (p + 1))" using Suc.hyps(2) c by simp
  from Suc.hyps(1) [OF this] show ?case using c by simp
qed

lemma cstr_at_add: "k \<le> length (cstr_at m p) \<Longrightarrow> cstr_at m (p + k) = drop k (cstr_at m p)"
proof (rule cstr_at_eqI)
  fix i assume a: "k \<le> length (cstr_at m p)" "i < length (drop k (cstr_at m p))"
  then have "k + i < length (cstr_at m p)" by simp
  from rd_cstr_at [OF this] show "rd m (p + k + i) = drop k (cstr_at m p) ! i"
    using a by (simp add: add.assoc)
next
  show "NUL \<notin> set (drop k (cstr_at m p))"
    using cstr_at_no_NUL [of m p] by (meson in_set_dropD)
next
  assume "k \<le> length (cstr_at m p)"
  then show "rd m (p + k + length (drop k (cstr_at m p))) = NUL"
    using rd_cstr_at_end [of m p] by simp
qed

lemma skip_space_eq: "skip_space m p = p + length (takeWhile isspace (cstr_at m p))"
proof (induction m p rule: skip_space.induct)
  case (1 m p)
  show ?case
  proof (cases "rd m p \<noteq> NUL \<and> isspace (rd m p)")
    case True
    then have c: "cstr_at m p = rd m p # cstr_at m (p + 1)"
      by (subst cstr_at_unfold) simp
    show ?thesis
      using True "1.IH" by (subst skip_space.simps) (simp add: c)
  next
    case False
    then show ?thesis
      by (subst skip_space.simps, subst cstr_at_unfold) auto
  qed
qed

lemma skip_nonspace_eq:
  "skip_nonspace m p = p + length (takeWhile (\<lambda>c. \<not> isspace c) (cstr_at m p))"
proof (induction m p rule: skip_nonspace.induct)
  case (1 m p)
  show ?case
  proof (cases "rd m p \<noteq> NUL \<and> \<not> isspace (rd m p)")
    case True
    then have c: "cstr_at m p = rd m p # cstr_at m (p + 1)"
      by (subst cstr_at_unfold) simp
    show ?thesis
      using True "1.IH" by (subst skip_nonspace.simps) (simp add: c)
  next
    case False
    then show ?thesis
      by (subst skip_nonspace.simps, subst cstr_at_unfold) auto
  qed
qed

lemma zero_space_eq:
  "\<exists>m'. zero_space m p = (m', p + length (takeWhile isspace (cstr_at m p)))
        \<and> (\<forall>q. rd m' q = (if p \<le> q \<and> q < p + length (takeWhile isspace (cstr_at m p))
                            then NUL else rd m q))"
proof (induction m p rule: zero_space.induct)
  case (1 m p)
  show ?case
  proof (cases "rd m p \<noteq> NUL \<and> isspace (rd m p)")
    case True
    then have c: "cstr_at m p = rd m p # cstr_at m (p + 1)"
      by (subst cstr_at_unfold) simp
    have same: "cstr_at (wr m p NUL) (p + 1) = cstr_at m (p + 1)"
    proof (rule cstr_at_eqI)
      fix i assume "i < length (cstr_at m (p + 1))"
      then show "rd (wr m p NUL) (p + 1 + i) = cstr_at m (p + 1) ! i"
        using rd_cstr_at [of i m "p + 1"] by (simp add: rd_wr)
    next
      show "NUL \<notin> set (cstr_at m (p + 1))" by (rule cstr_at_no_NUL)
    next
      show "rd (wr m p NUL) (p + 1 + length (cstr_at m (p + 1))) = NUL"
        using rd_cstr_at_end [of m "p + 1"] by (simp add: rd_wr)
    qed
    from "1.IH" [OF True] obtain m' where
      m': "zero_space (wr m p NUL) (p + 1)
             = (m', p + 1 + length (takeWhile isspace (cstr_at (wr m p NUL) (p + 1))))"
        "\<forall>q. rd m' q = (if p + 1 \<le> q
                               \<and> q < p + 1 + length (takeWhile isspace (cstr_at (wr m p NUL) (p + 1)))
                            then NUL else rd (wr m p NUL) q)"
      by blast
    show ?thesis
      using True m' unfolding same
      by (subst zero_space.simps) (auto simp: c rd_wr)
  next
    case False
    then have tw: "takeWhile isspace (cstr_at m p) = []"
      by (subst cstr_at_unfold) auto
    show ?thesis
      using False by (subst zero_space.simps) (auto simp: tw)
  qed
qed

section \<open>get_arg\<close>

lemma cstr_at_Nil_iff: "cstr_at m p = [] \<longleftrightarrow> rd m p = NUL"
  by (subst cstr_at_unfold) simp

lemma cstr_at_same:
  assumes "\<And>q. p \<le> q \<Longrightarrow> rd m' q = rd m q"
  shows "cstr_at m' p = cstr_at m p"
proof (rule cstr_at_eqI)
  fix i assume "i < length (cstr_at m p)"
  then show "rd m' (p + i) = cstr_at m p ! i"
    using assms [of "p + i"] by (simp add: rd_cstr_at)
next
  show "NUL \<notin> set (cstr_at m p)" by (rule cstr_at_no_NUL)
next
  show "rd m' (p + length (cstr_at m p)) = NUL"
    using assms [of "p + length (cstr_at m p)"] by (simp add: rd_cstr_at_end)
qed

lemma get_arg_None:
  assumes "list_all isspace (cstr_at m p)"
  shows "get_arg m (Some p) = (m, None, Some p)"
proof -
  have tw: "takeWhile isspace (cstr_at m p) = cstr_at m p"
    using assms by (simp add: list_all_iff)
  have "skip_space m p = p + length (cstr_at m p)"
    by (simp only: skip_space_eq tw)
  then have "rd m (skip_space m p) = NUL"
    by (simp add: rd_cstr_at_end)
  then show ?thesis by (simp add: get_arg_def)
qed

lemma get_arg_Some:
  assumes "\<not> list_all isspace (cstr_at m p)"
  shows "\<exists>m' start e. get_arg m (Some p) = (m', Some start, Some e)
           \<and> cstr_at m' start = takeWhile (\<lambda>c. \<not> isspace c) (dropWhile isspace (cstr_at m p))
           \<and> cstr_at m' e = dropWhile isspace (dropWhile (\<lambda>c. \<not> isspace c)
                                                (dropWhile isspace (cstr_at m p)))"
proof -
  define s where "s = cstr_at m p"
  define start where "start = skip_space m p"
  define s1 where "s1 = dropWhile isspace s"
  define tok where "tok = takeWhile (\<lambda>c. \<not> isspace c) s1"
  define end1 where "end1 = skip_nonspace m start"
  define s2 where "s2 = dropWhile (\<lambda>c. \<not> isspace c) s1"
  have start: "start = p + length (takeWhile isspace s)"
    by (simp add: start_def s_def skip_space_eq)
  have c1: "cstr_at m start = s1"
    unfolding start s1_def s_def
    by (subst cstr_at_add) (simp_all add: length_takeWhile_le dropWhile_eq_drop)
  have s1_ne: "s1 \<noteq> []"
    using assms by (auto simp: s1_def s_def list_all_iff)
  then have r1: "rd m start \<noteq> NUL"
    using c1 cstr_at_Nil_iff by metis
  have end1: "end1 = start + length tok"
    by (simp add: end1_def skip_nonspace_eq c1 tok_def)
  have c2: "cstr_at m end1 = s2"
    unfolding end1 tok_def s2_def c1 [symmetric]
    by (subst cstr_at_add) (simp_all add: length_takeWhile_le dropWhile_eq_drop)
  have split1: "s1 = tok @ s2"
    by (simp add: tok_def s2_def)
  have tokN: "NUL \<notin> set tok"
    using cstr_at_no_NUL [of m start] c1 split1 by auto
  show ?thesis
  proof (cases "rd m end1 = NUL")
    case True
    then have "s2 = []" using c2 cstr_at_Nil_iff by metis
    then have "cstr_at m start = tok" "cstr_at m end1 = dropWhile isspace s2"
      using c1 c2 split1 by simp_all
    moreover have "get_arg m (Some p) = (m, Some start, Some end1)"
      using r1 True by (simp add: get_arg_def start_def [symmetric] end1_def [symmetric] Let_def)
    ultimately show ?thesis
      unfolding tok_def s2_def s1_def s_def by blast
  next
    case False
    then have s2_ne: "s2 \<noteq> []" using c2 cstr_at_Nil_iff by metis
    have "isspace (hd s2)"
      using s2_ne hd_dropWhile [of "\<lambda>c. \<not> isspace c" s1] by (simp add: s2_def)
    then have k: "0 < length (takeWhile isspace s2)"
      using s2_ne by (cases s2) auto
    define end2 where "end2 = end1 + length (takeWhile isspace s2)"
    from zero_space_eq [of m end1] obtain m' where
      z: "zero_space m end1 = (m', end2)"
        "\<forall>q. rd m' q = (if end1 \<le> q \<and> q < end2 then NUL else rd m q)"
      unfolding c2 end2_def by blast
    have g: "get_arg m (Some p) = (m', Some start, Some end2)"
      using r1 False z(1)
      by (simp add: get_arg_def start_def [symmetric] end1_def [symmetric] Let_def)
    have t: "cstr_at m' start = tok"
    proof (rule cstr_at_eqI)
      fix i assume i: "i < length tok"
      then have "rd m' (start + i) = rd m (start + i)"
        using z(2) end1 by simp
      also have "\<dots> = s1 ! i"
        using rd_cstr_at [of i m start] i c1 split1 by simp
      also have "\<dots> = tok ! i"
        using i split1 by (simp add: nth_append)
      finally show "rd m' (start + i) = tok ! i" .
    next
      show "NUL \<notin> set tok" by (rule tokN)
    next
      show "rd m' (start + length tok) = NUL"
        using z(2) end1 k by (simp add: end2_def)
    qed
    have "cstr_at m' end2 = cstr_at m end2"
      by (rule cstr_at_same) (simp add: z(2))
    also have "\<dots> = drop (length (takeWhile isspace s2)) s2"
      unfolding end2_def c2 [symmetric]
      by (rule cstr_at_add) (simp add: length_takeWhile_le)
    also have "\<dots> = dropWhile isspace s2"
      by (simp add: dropWhile_eq_drop)
    finally have e: "cstr_at m' end2 = dropWhile isspace s2" .
    show ?thesis
      using g t e unfolding tok_def s2_def s1_def s_def by blast
  qed
qed

lemma get_arg_observed:
  "arg_token m p = fst (extractToken (cstr_at m p))"
  "arg_rest m p = Some (snd (extractToken (cstr_at m p)))"
proof -
  show "arg_token m p = fst (extractToken (cstr_at m p))"
  proof (cases "list_all isspace (cstr_at m p)")
    case True
    then have "dropWhile isspace (cstr_at m p) = []" by (simp add: list_all_iff)
    then show ?thesis
      using get_arg_None [OF True] by (simp add: arg_token_def extractToken_def)
  next
    case False
    then have "dropWhile isspace (cstr_at m p) \<noteq> []" by (simp add: list_all_iff)
    then show ?thesis
      using get_arg_Some [OF False] by (auto simp: arg_token_def extractToken_def Let_def)
  qed
  show "arg_rest m p = Some (snd (extractToken (cstr_at m p)))"
  proof (cases "list_all isspace (cstr_at m p)")
    case True
    then have "dropWhile isspace (cstr_at m p) = []" by (simp add: list_all_iff)
    then show ?thesis
      using get_arg_None [OF True] by (simp add: arg_rest_def extractToken_def)
  next
    case False
    then have "dropWhile isspace (cstr_at m p) \<noteq> []" by (simp add: list_all_iff)
    then show ?thesis
      using get_arg_Some [OF False] by (auto simp: arg_rest_def extractToken_def Let_def)
  qed
qed

text \<open>
  C6. For every cursor, \<open>get_arg\<close> skips the leading white space and returns a
  pointer at which the memory now holds, NUL-terminated, exactly the following maximal
  run of characters that are not white space; the cursor is left past the white space
  that follows the token. It returns NULL exactly when the text at the cursor is empty or
  all white space, and then memory and cursor are untouched; a NULL cursor pointer gives
  NULL and nothing else. On three blanks, foo, three blanks, bar it returns foo and
  leaves the cursor at bar.
\<close>

theorem get_arg_extracts_token:
  "arg_token m p = fst (extractToken (cstr_at m p))
   \<and> arg_rest m p = Some (snd (extractToken (cstr_at m p)))
   \<and> (arg_token m p = None \<longleftrightarrow> list_all isspace (cstr_at m p))
   \<and> (list_all isspace (cstr_at m p) \<longrightarrow> get_arg m (Some p) = (m, None, Some p))
   \<and> get_arg m None = (m, None, None)
   \<and> arg_token ''   foo   bar'' 0 = Some ''foo''
   \<and> arg_rest ''   foo   bar'' 0 = Some ''bar''
   \<and> arg_token '''' 0 = None
   \<and> arg_token ''    '' 0 = None"
proof -
  have n: "arg_token m p = None \<longleftrightarrow> list_all isspace (cstr_at m p)"
    by (simp add: get_arg_observed extractToken_def Let_def list_all_iff)
  have e1: "extractToken (cstr ''   foo   bar'') = (Some ''foo'', ''bar'')"
    by code_simp
  have e2: "extractToken [] = (None, [])"
    by code_simp
  have e3: "extractToken (cstr ''    '') = (None, ''    '')"
    by code_simp
  show ?thesis
    unfolding n by (simp add: get_arg_observed e1 e2 e3 get_arg_None) (simp add: get_arg_def)
qed

theorem get_arg_extracts_token_witness:
  "list_all isspace (cstr_at ''  '' 0)
   \<and> get_arg ''  '' (Some 0) = (''  '', None, Some 0)
   \<and> get_arg ''   foo   bar'' (Some 0)
       = (''   foo'' @ [NUL, NUL, NUL] @ ''bar'', Some 3, Some 9)
   \<and> arg_token ''   foo   bar'' 0 = Some ''foo''
   \<and> arg_rest ''   foo   bar'' 0 = Some ''bar''"
proof -
  have h: "list_all isspace (cstr_at ''  '' 0)"
    by code_simp
  have g: "get_arg ''   foo   bar'' (Some 0)
       = (''   foo'' @ [NUL, NUL, NUL] @ ''bar'', Some 3, Some 9)"
    by code_simp
  show ?thesis
    using h g get_arg_extracts_token [of "''  ''" 0] by simp
qed

section \<open>process_command\<close>

lemma strip_len_eq:
  "n \<le> length (cstr_at m arg) \<Longrightarrow>
     strip_len m arg n = length (dropWhile isspace (rev (take n (cstr_at m arg))))"
proof (induction n)
  case 0
  then show ?case by simp
next
  case (Suc n)
  then have n: "n < length (cstr_at m arg)" by simp
  have r: "rd m (arg + n) = cstr_at m arg ! n"
    using n by (rule rd_cstr_at)
  have t: "take (Suc n) (cstr_at m arg) = take n (cstr_at m arg) @ [cstr_at m arg ! n]"
    using n by (rule take_Suc_conv_app_nth)
  show ?case
    using Suc.IH n by (simp add: r t)
qed

lemma take_rstrip: "take (length (dropWhile isspace (rev s))) s = rstrip s"
proof -
  have "s = rev (dropWhile isspace (rev s)) @ rev (takeWhile isspace (rev s))"
    by (metis rev_append rev_rev_ident takeWhile_dropWhile_id)
  then have "take (length (rev (dropWhile isspace (rev s)))) s = rev (dropWhile isspace (rev s))"
    by (metis append_eq_conv_conj)
  then show ?thesis by (simp add: rstrip_def)
qed

lemma stripped_line:
  "cstr_at (wr m (arg + strip_len m arg (strlen m arg)) NUL) arg = rstrip (cstr_at m arg)"
proof -
  define s where "s = cstr_at m arg"
  define L where "L = length (dropWhile isspace (rev s))"
  have L: "strip_len m arg (strlen m arg) = L"
    using strip_len_eq [of "length s" m arg] by (simp add: strlen_def s_def L_def)
  have Ls: "L \<le> length s"
    unfolding L_def by (metis length_dropWhile_le length_rev)
  have "cstr_at (wr m (arg + L) NUL) arg = take L s"
  proof (rule cstr_at_eqI)
    fix i assume "i < length (take L s)"
    then have "i < L" "i < length s" using Ls by simp_all
    then show "rd (wr m (arg + L) NUL) (arg + i) = take L s ! i"
      using rd_cstr_at [of i m arg] by (simp add: rd_wr s_def)
  next
    show "NUL \<notin> set (take L s)"
      using cstr_at_no_NUL [of m arg] unfolding s_def by (meson in_set_takeD)
  next
    show "rd (wr m (arg + L) NUL) (arg + length (take L s)) = NUL"
      using Ls by (simp add: rd_wr min_def)
  qed
  then show ?thesis
    unfolding L by (simp add: L_def take_rstrip s_def [symmetric])
qed

lemma rstrip_split:
  "s = rstrip s @ rev (takeWhile isspace (rev s))"
  unfolding rstrip_def by (metis rev_append rev_rev_ident takeWhile_dropWhile_id)

lemma rstrip_last: "rstrip s \<noteq> [] \<Longrightarrow> \<not> isspace (last (rstrip s))"
  unfolding rstrip_def using hd_dropWhile [of isspace "rev s"] by (simp add: last_rev)

lemma list_all_rstrip: "list_all isspace (rstrip s) \<longleftrightarrow> list_all isspace s"
proof
  assume a: "list_all isspace (rstrip s)"
  have "rstrip s = []"
  proof (rule ccontr)
    assume ne: "rstrip s \<noteq> []"
    then have "last (rstrip s) \<in> set (rstrip s)" by simp
    with a rstrip_last [OF ne] show False by (simp add: list_all_iff)
  qed
  then have "s = rev (takeWhile isspace (rev s))"
    using rstrip_split [of s] by simp
  then have "set s \<subseteq> set (takeWhile isspace (rev s))"
    by (metis set_rev subset_refl)
  then show "list_all isspace s"
    by (auto simp: list_all_iff dest: set_takeWhileD)
next
  assume "list_all isspace s"
  then have "dropWhile isspace (rev s) = []" by (simp add: list_all_iff)
  then have "rstrip s = []" by (simp only: rstrip_def rev.simps)
  then show "list_all isspace (rstrip s)" by simp
qed

lemma token_rstrip:
  assumes "\<not> list_all isspace s"
  shows "takeWhile (\<lambda>c. \<not> isspace c) (dropWhile isspace (rstrip s))
           = takeWhile (\<lambda>c. \<not> isspace c) (dropWhile isspace s)"
proof -
  define a where "a = rstrip s"
  define t where "t = rev (takeWhile isspace (rev s))"
  have s: "s = a @ t" unfolding a_def t_def by (rule rstrip_split)
  have t: "\<forall>x \<in> set t. isspace x"
    unfolding t_def by (auto dest: set_takeWhileD)
  have na: "\<not> list_all isspace a"
    using assms list_all_rstrip [of s] by (simp add: a_def)
  then have ex: "\<exists>x \<in> set a. \<not> isspace x" by (simp add: list_all_iff)
  then have d: "dropWhile isspace (a @ t) = dropWhile isspace a @ t"
    by (auto intro: dropWhile_append1)
  define b where "b = dropWhile isspace a"
  have tt: "takeWhile (\<lambda>c. \<not> isspace c) t = []"
    using t by (cases t) auto
  have "takeWhile (\<lambda>c. \<not> isspace c) (b @ t) = takeWhile (\<lambda>c. \<not> isspace c) b"
  proof (cases "\<forall>x \<in> set b. \<not> isspace x")
    case True
    have 1: "takeWhile (\<lambda>c. \<not> isspace c) (b @ t) = b @ takeWhile (\<lambda>c. \<not> isspace c) t"
      by (rule takeWhile_append2) (use True in auto)
    have 2: "takeWhile (\<lambda>c. \<not> isspace c) b = b"
      using True by (induction b) auto
    show ?thesis unfolding 1 2 tt by simp
  next
    case False
    then show ?thesis by (auto simp: takeWhile_append1)
  qed
  then have key: "takeWhile (\<lambda>c. \<not> isspace c) (b @ t) = takeWhile (\<lambda>c. \<not> isspace c) b" .
  have l: "takeWhile (\<lambda>c. \<not> isspace c) (dropWhile isspace (rstrip s))
             = takeWhile (\<lambda>c. \<not> isspace c) b"
    by (simp only: b_def a_def)
  have "dropWhile isspace s = b @ t"
    by (subst s) (simp only: d b_def)
  then have r: "takeWhile (\<lambda>c. \<not> isspace c) (dropWhile isspace s)
                  = takeWhile (\<lambda>c. \<not> isspace c) (b @ t)"
    by simp
  show ?thesis by (simp only: l r key)
qed

lemma process_command_blank:
  assumes "blank_line st arg"
  shows "\<exists>m'. process_command cmds arg i st = (0, st\<lparr>mem := m'\<rparr>)"
proof -
  let ?m1 = "wr (mem st) (arg + strip_len (mem st) arg (strlen (mem st) arg)) NUL"
  have "list_all isspace (cstr_at ?m1 arg)"
    using assms by (simp add: stripped_line list_all_rstrip blank_line_def)
  from get_arg_None [OF this] show ?thesis
    by (simp add: process_command_def Let_def) blast
qed

lemma process_command_token:
  assumes "\<not> blank_line st arg"
  shows "\<exists>m' ct e. get_arg (wr (mem st) (arg + strip_len (mem st) arg (strlen (mem st) arg)) NUL)
                      (Some arg) = (m', Some ct, Some e)
                 \<and> cstr_at m' ct = command_name st arg"
proof -
  let ?m1 = "wr (mem st) (arg + strip_len (mem st) arg (strlen (mem st) arg)) NUL"
  have nb: "\<not> list_all isspace (cstr_at (mem st) arg)"
    using assms by (simp add: blank_line_def)
  then have "\<not> list_all isspace (cstr_at ?m1 arg)"
    by (simp add: stripped_line list_all_rstrip)
  from get_arg_Some [OF this] obtain m' ct e where
    g: "get_arg ?m1 (Some arg) = (m', Some ct, Some e)"
      "cstr_at m' ct = takeWhile (\<lambda>c. \<not> isspace c) (dropWhile isspace (cstr_at ?m1 arg))"
    by blast
  have "cstr_at m' ct = command_name st arg"
    unfolding g(2) stripped_line command_name_def using nb by (rule token_rstrip)
  with g(1) show ?thesis by blast
qed

lemma process_command_found:
  assumes "\<not> blank_line st arg" and "find_command cmds (command_name st arg) = Some c"
  shows "\<exists>m' e. process_command cmds arg i st
                  = (0, (snd (cmd_func c e (st\<lparr>mem := m', interactive_call := i\<rparr>)))
                          \<lparr>interactive_call := interactive_call st\<rparr>)"
proof -
  from process_command_token [OF assms(1)] obtain m' ct e where
    g: "get_arg (wr (mem st) (arg + strip_len (mem st) arg (strlen (mem st) arg)) NUL)
          (Some arg) = (m', Some ct, Some e)"
      "cstr_at m' ct = command_name st arg"
    by blast
  show ?thesis
    using g assms(2)
    by (intro exI [of _ m'] exI [of _ e])
       (simp add: process_command_def Let_def split: prod.splits)
qed

lemma process_command_unknown:
  assumes "\<not> blank_line st arg" and "find_command cmds (command_name st arg) = None"
  shows "\<exists>m'. process_command cmds arg i st
                = (- 1, st\<lparr>mem := m',
                            stderr := stderr st @ unknown_command (command_name st arg)\<rparr>)"
proof -
  from process_command_token [OF assms(1)] obtain m' ct e where
    g: "get_arg (wr (mem st) (arg + strip_len (mem st) arg (strlen (mem st) arg)) NUL)
          (Some arg) = (m', Some ct, Some e)"
      "cstr_at m' ct = command_name st arg"
    by blast
  show ?thesis
    using g assms(2)
    by (intro exI [of _ m']) (simp add: process_command_def Let_def unknown_command_def)
qed

lemma one_line:
  "length (filter (\<lambda>c. c = CHR 0x0A) (unknown_command (command_name st arg))) = 1"
proof -
  have "isspace (CHR 0x0A)" by (simp add: isspace_def)
  then have "CHR 0x0A \<notin> set (command_name st arg)"
    unfolding command_name_def by (metis (mono_tags, lifting) set_takeWhileD)
  then have "filter (\<lambda>c. c = CHR 0x0A) (command_name st arg) = []"
    by (auto simp: filter_empty_conv)
  then show ?thesis by (simp add: unknown_command_def)
qed

text \<open>
  C2. For every line, \<open>process_command\<close> returns 0 when the line holds no token
  (nothing but the line buffer changes); returns 0 whenever the name the line starts with
  is found in the command table, whatever the handler returns; and returns -1, appending
  to \<open>stderr\<close> the one line "unknown command: name (try "help")", when a name is there and
  no command matches it. It returns a status other than 0 in that last case only.
\<close>

theorem process_command_status:
  "(blank_line st arg \<longrightarrow>
      fst (process_command cmds arg i st) = 0
      \<and> (\<exists>m'. snd (process_command cmds arg i st) = st\<lparr>mem := m'\<rparr>))
   \<and> (\<not> blank_line st arg \<and> find_command cmds (command_name st arg) \<noteq> None \<longrightarrow>
        fst (process_command cmds arg i st) = 0)
   \<and> (\<not> blank_line st arg \<and> find_command cmds (command_name st arg) = None \<longrightarrow>
        fst (process_command cmds arg i st) = - 1
        \<and> stderr (snd (process_command cmds arg i st))
            = stderr st @ unknown_command (command_name st arg)
        \<and> length (filter (\<lambda>c. c = CHR 0x0A) (unknown_command (command_name st arg))) = 1)
   \<and> (fst (process_command cmds arg i st) \<noteq> 0 \<longleftrightarrow>
        \<not> blank_line st arg \<and> find_command cmds (command_name st arg) = None)"
proof (cases "blank_line st arg")
  case True
  from process_command_blank [OF True, of cmds i] show ?thesis
    using True by auto
next
  case nb: False
  show ?thesis
  proof (cases "find_command cmds (command_name st arg)")
    case None
    from process_command_unknown [OF nb None, of i] show ?thesis
      using nb None one_line [of st arg] by auto
  next
    case (Some c)
    from process_command_found [OF nb Some, of i] show ?thesis
      using nb Some by auto
  qed
qed

theorem process_command_status_witness:
  "blank_line (state0\<lparr>mem := ''   ''\<rparr>) 0
   \<and> fst (process_command sample_commands 0 1 (state0\<lparr>mem := ''   ''\<rparr>)) = 0
   \<and> \<not> blank_line (state0\<lparr>mem := ''erase all  ''\<rparr>) 0
   \<and> map_option cmd_name (find_command sample_commands
         (command_name (state0\<lparr>mem := ''erase all  ''\<rparr>) 0)) = Some ''erase''
   \<and> fst (handler_fail 6 (state0\<lparr>mem := ''erase all  ''\<rparr>)) = - 1
   \<and> fst (process_command sample_commands 0 1 (state0\<lparr>mem := ''erase all  ''\<rparr>)) = 0
   \<and> \<not> blank_line (state0\<lparr>mem := '' bogus 1''\<rparr>) 0
   \<and> find_command sample_commands (command_name (state0\<lparr>mem := '' bogus 1''\<rparr>) 0) = None
   \<and> fst (process_command sample_commands 0 1 (state0\<lparr>mem := '' bogus 1''\<rparr>)) = - 1
   \<and> stderr (snd (process_command sample_commands 0 1 (state0\<lparr>mem := '' bogus 1''\<rparr>)))
       = ''unknown command: bogus (try '' @ [CHR 0x22] @ ''help'' @ [CHR 0x22] @ '')'' @ [CHR 0x0A]"
proof -
  have b: "blank_line (state0\<lparr>mem := ''   ''\<rparr>) 0"
    by code_simp
  have e1: "\<not> blank_line (state0\<lparr>mem := ''erase all  ''\<rparr>) 0"
    by code_simp
  have e2: "map_option cmd_name (find_command sample_commands
              (command_name (state0\<lparr>mem := ''erase all  ''\<rparr>) 0)) = Some ''erase''"
    by code_simp
  have e3: "fst (handler_fail 6 (state0\<lparr>mem := ''erase all  ''\<rparr>)) = - 1"
    by (simp add: handler_fail_def)
  have u1: "\<not> blank_line (state0\<lparr>mem := '' bogus 1''\<rparr>) 0"
    by code_simp
  have u2: "map_option cmd_name (find_command sample_commands
              (command_name (state0\<lparr>mem := '' bogus 1''\<rparr>) 0)) = None"
    by code_simp
  have u3: "command_name (state0\<lparr>mem := '' bogus 1''\<rparr>) 0 = ''bogus''"
    by code_simp
  have u4: "stderr state0 = []"
    by (simp add: state0_def)
  show ?thesis
    using b e1 e2 e3 u1 u2 u3 u4
      process_command_status [of "state0\<lparr>mem := ''   ''\<rparr>" 0 sample_commands 1]
      process_command_status [of "state0\<lparr>mem := ''erase all  ''\<rparr>" 0 sample_commands 1]
      process_command_status [of "state0\<lparr>mem := '' bogus 1''\<rparr>" 0 sample_commands 1]
    by (auto simp: unknown_command_def)
qed

text \<open>
  C7. After every call of \<open>process_command\<close> the flag \<open>interactive_call\<close>, which
  \<open>is_interactive\<close> reads, has the value it had before the call, whatever the handler
  did, so also when the handler dispatches again. When a command is found its handler
  runs from a state in which \<open>is_interactive\<close> answers the value passed to
  \<open>process_command\<close>, and the saved value is put back on the state the handler leaves.
\<close>

theorem process_command_restores_flag:
  "interactive_call (snd (process_command cmds arg i st)) = interactive_call st
   \<and> is_interactive (snd (process_command cmds arg i st)) = is_interactive st
   \<and> (\<forall>c. \<not> blank_line st arg \<and> find_command cmds (command_name st arg) = Some c \<longrightarrow>
         (\<exists>m' e. is_interactive (st\<lparr>mem := m', interactive_call := i\<rparr>) = i
                \<and> snd (process_command cmds arg i st)
                    = (snd (cmd_func c e (st\<lparr>mem := m', interactive_call := i\<rparr>)))
                        \<lparr>interactive_call := interactive_call st\<rparr>))"
proof (cases "blank_line st arg")
  case True
  from process_command_blank [OF True, of cmds i] show ?thesis
    using True by (auto simp: is_interactive_def)
next
  case nb: False
  show ?thesis
  proof (cases "find_command cmds (command_name st arg)")
    case None
    from process_command_unknown [OF nb None, of i] show ?thesis
      using nb None by (auto simp: is_interactive_def)
  next
    case (Some c)
    from process_command_found [OF nb Some, of i] obtain m' e where
      p: "process_command cmds arg i st
            = (0, (snd (cmd_func c e (st\<lparr>mem := m', interactive_call := i\<rparr>)))
                    \<lparr>interactive_call := interactive_call st\<rparr>)"
      by blast
    have "\<exists>m' e. is_interactive (st\<lparr>mem := m', interactive_call := i\<rparr>) = i
                \<and> snd (process_command cmds arg i st)
                    = (snd (cmd_func c e (st\<lparr>mem := m', interactive_call := i\<rparr>)))
                        \<lparr>interactive_call := interactive_call st\<rparr>"
      by (intro exI [of _ m'] exI [of _ e]) (simp add: p is_interactive_def)
    then show ?thesis
      using nb Some p by (simp add: is_interactive_def)
  qed
qed

theorem process_command_restores_flag_witness:
  "\<not> blank_line (state0\<lparr>mem := ''batch probe'', interactive_call := 5\<rparr>) 0
   \<and> map_option cmd_name (find_command outer_commands
         (command_name (state0\<lparr>mem := ''batch probe'', interactive_call := 5\<rparr>) 0)) = Some ''batch''
   \<and> stderr (snd (process_command outer_commands 0 1
         (state0\<lparr>mem := ''batch probe'', interactive_call := 5\<rparr>)))
       = ''batch'' @ [CHR 0x0A] @ ''interactive'' @ [CHR 0x0A]
   \<and> interactive_call (snd (process_command outer_commands 0 1
         (state0\<lparr>mem := ''batch probe'', interactive_call := 5\<rparr>))) = 5"
proof -
  have h1: "\<not> blank_line (state0\<lparr>mem := ''batch probe'', interactive_call := 5\<rparr>) 0"
    by code_simp
  have h2: "map_option cmd_name (find_command outer_commands
         (command_name (state0\<lparr>mem := ''batch probe'', interactive_call := 5\<rparr>) 0)) = Some ''batch''"
    by code_simp
  have h3: "stderr (snd (process_command outer_commands 0 1
         (state0\<lparr>mem := ''batch probe'', interactive_call := 5\<rparr>)))
       = ''batch'' @ [CHR 0x0A] @ ''interactive'' @ [CHR 0x0A]"
    by code_simp
  have h4: "interactive_call (state0\<lparr>mem := ''batch probe'', interactive_call := 5\<rparr>) = 5"
    by simp
  show ?thesis
    using h1 h2 h3 h4
      process_command_restores_flag [of outer_commands 0 1
        "state0\<lparr>mem := ''batch probe'', interactive_call := 5\<rparr>"]
    by simp
qed

end
